theory Spec2Isabelle
  imports Main "HOL-Library.Char_ord" "HOL-Library.List_Lexorder" "HOL-Library.Sublist"
begin

section \<open>Text, characters and errors\<close>

text \<open>
  The program is \<^verbatim>\<open>spl_regex_portability_audit.py\<close>. A Python \<^verbatim>\<open>str\<close> is modelled
  as a \<^typ>\<open>string\<close>, one \<^typ>\<open>char\<close> per code point; the development therefore covers
  text whose code points are below 256. Offsets into a text are natural numbers counted
  from its start, as every caller in the source passes them.
  Exceptions are values: a function that can raise returns \<open>py_error + 'a\<close>.
\<close>

datatype py_error = IndexError | ValueError

abbreviation DQ :: char where "DQ \<equiv> CHR 0x22"
abbreviation SQ :: char where "SQ \<equiv> CHR 0x27"
abbreviation BSL :: char where "BSL \<equiv> CHR 0x5C"
abbreviation PIPE :: char where "PIPE \<equiv> CHR 0x7C"
abbreviation NL :: char where "NL \<equiv> CHR 0x0A"

text \<open>\<^verbatim>\<open>s[i]\<close>: raises IndexError outside the text.\<close>

definition char_at :: "string \<Rightarrow> nat \<Rightarrow> py_error + char" where
  "char_at s i = (if i < length s then Inr (s ! i) else Inl IndexError)"

text \<open>\<^verbatim>\<open>s[a:b]\<close> for offsets \<open>a\<close>, \<open>b\<close>; never raises, clips at the end of the text.\<close>

definition slice :: "string \<Rightarrow> nat \<Rightarrow> nat \<Rightarrow> string" where
  "slice s a b = take (b - a) (drop a s)"

section \<open>The quoted-span scanner\<close>

text \<open>
  The loop of the doubled double-quote branch of \<^verbatim>\<open>_scan_quoted\<close>:
  \<^verbatim>\<open>while i < n - 1: if s[i] == '"' and s[i+1] == '"': return i + 2, s[start:i]; i += 1\<close>
  and \<^verbatim>\<open>return None\<close> after it. The guard \<^verbatim>\<open>i < n - 1\<close> over Python's integers is
  \<open>i + 1 < n\<close> over the naturals.
\<close>

function scan_doubled :: "string \<Rightarrow> nat \<Rightarrow> nat \<Rightarrow> py_error + (nat \<times> string) option" where
  "scan_doubled s start i =
     (if i + 1 < length s then
        (case char_at s i of
           Inl err \<Rightarrow> Inl err
         | Inr a \<Rightarrow>
             if a = DQ then
               (case char_at s (i + 1) of
                  Inl err \<Rightarrow> Inl err
                | Inr b \<Rightarrow>
                    if b = DQ then Inr (Some (i + 2, slice s start i))
                    else scan_doubled s start (i + 1))
             else scan_doubled s start (i + 1))
      else Inr None)"
  by pat_completeness auto
termination
  by (relation "measure (\<lambda>(s, start, i). length s - i)") auto

text \<open>
  The loop of the standard branch:
  \<^verbatim>\<open>while i < n: if s[i] == '\\': i += 2; continue; if s[i] == quote: return i + 1, s[start:i]; i += 1\<close>
  and \<^verbatim>\<open>return None\<close> after it.
\<close>

function scan_standard :: "string \<Rightarrow> char \<Rightarrow> nat \<Rightarrow> nat \<Rightarrow> py_error + (nat \<times> string) option" where
  "scan_standard s quote start i =
     (if i < length s then
        (case char_at s i of
           Inl err \<Rightarrow> Inl err
         | Inr a \<Rightarrow>
             if a = BSL then scan_standard s quote start (i + 2)
             else if a = quote then Inr (Some (i + 1, slice s start i))
             else scan_standard s quote start (i + 1))
      else Inr None)"
  by pat_completeness auto
termination
  by (relation "measure (\<lambda>(s, quote, start, i). length s - i)") auto

declare scan_doubled.simps [simp del]
declare scan_standard.simps [simp del]

text \<open>\<^verbatim>\<open>_scan_quoted(s, i)\<close>.\<close>

definition scan_quoted :: "string \<Rightarrow> nat \<Rightarrow> py_error + (nat \<times> string) option" where
  "scan_quoted s i =
     (let n = length s in
      if i \<ge> n then Inr None
      else
        (case char_at s i of
           Inl err \<Rightarrow> Inl err
         | Inr ch \<Rightarrow>
             if ch \<noteq> SQ \<and> ch \<noteq> DQ then Inr None
             else if ch = DQ \<and> i + 1 < n then
               (case char_at s (i + 1) of
                  Inl err \<Rightarrow> Inl err
                | Inr ch2 \<Rightarrow>
                    if ch2 = DQ then scan_doubled s (i + 2) (i + 2)
                    else scan_standard s ch (i + 1) (i + 1))
             else scan_standard s ch (i + 1) (i + 1)))"

subsection \<open>Results of the scanner's loops\<close>

text \<open>
  Every read of the loops is inside the text, so neither loop raises; a span they return
  ends inside the text, just past the closing marker, and its content is the slice of the
  text between the markers.
\<close>

lemma char_at_in: "i < length s \<Longrightarrow> char_at s i = Inr (s ! i)"
  by (simp add: char_at_def)

lemma scan_doubled_res:
  "scan_doubled s start i = Inr None \<or>
   (\<exists>e. scan_doubled s start i = Inr (Some (e, slice s start (e - 2))) \<and>
        i + 2 \<le> e \<and> e \<le> length s \<and> s ! (e - 2) = DQ \<and> s ! (e - 1) = DQ)"
proof (induction s start i rule: scan_doubled.induct)
  case (1 s start i)
  show ?case
  proof (cases "i + 1 < length s")
    case False
    then show ?thesis by (simp add: scan_doubled.simps)
  next
    case True
    then have r: "char_at s i = Inr (s ! i)" "char_at s (i + 1) = Inr (s ! (i + 1))"
      by (simp_all add: char_at_in)
    show ?thesis
    proof (cases "s ! i = DQ \<and> s ! (i + 1) = DQ")
      case True
      with \<open>i + 1 < length s\<close> r have "scan_doubled s start i = Inr (Some (i + 2, slice s start i))"
        by (simp add: scan_doubled.simps)
      with True \<open>i + 1 < length s\<close> show ?thesis by auto
    next
      case False
      with \<open>i + 1 < length s\<close> r have eq: "scan_doubled s start i = scan_doubled s start (i + 1)"
        by (subst scan_doubled.simps) auto
      from False \<open>i + 1 < length s\<close> r
      have "scan_doubled s start (i + 1) = Inr None \<or>
        (\<exists>e. scan_doubled s start (i + 1) = Inr (Some (e, slice s start (e - 2))) \<and>
        (i + 1) + 2 \<le> e \<and> e \<le> length s \<and> s ! (e - 2) = DQ \<and> s ! (e - 1) = DQ)"
        using "1.IH" by (cases "s ! i = DQ") auto
      with eq show ?thesis by auto
    qed
  qed
qed

lemma scan_standard_res:
  "scan_standard s q start i = Inr None \<or>
   (\<exists>e. scan_standard s q start i = Inr (Some (e, slice s start (e - 1))) \<and>
        i < e \<and> e \<le> length s \<and> s ! (e - 1) = q)"
proof (induction s q start i rule: scan_standard.induct)
  case (1 s q start i)
  show ?case
  proof (cases "i < length s")
    case False
    then show ?thesis by (simp add: scan_standard.simps)
  next
    case True
    then have r: "char_at s i = Inr (s ! i)" by (simp add: char_at_in)
    consider (esc) "s ! i = BSL" | (close) "s ! i \<noteq> BSL" "s ! i = q" | (other) "s ! i \<noteq> BSL" "s ! i \<noteq> q"
      by blast
    then show ?thesis
    proof cases
      case esc
      with True r have eq: "scan_standard s q start i = scan_standard s q start (i + 2)"
        by (subst scan_standard.simps) simp
      from esc True r have "scan_standard s q start (i + 2) = Inr None \<or>
        (\<exists>e. scan_standard s q start (i + 2) = Inr (Some (e, slice s start (e - 1))) \<and>
        i + 2 < e \<and> e \<le> length s \<and> s ! (e - 1) = q)"
        using "1.IH"(1) by simp
      with eq show ?thesis by auto
    next
      case close
      with True r have "scan_standard s q start i = Inr (Some (i + 1, slice s start i))"
        by (subst scan_standard.simps) simp
      with close True show ?thesis by auto
    next
      case other
      with True r have eq: "scan_standard s q start i = scan_standard s q start (i + 1)"
        by (subst scan_standard.simps) simp
      from other True r have "scan_standard s q start (i + 1) = Inr None \<or>
        (\<exists>e. scan_standard s q start (i + 1) = Inr (Some (e, slice s start (e - 1))) \<and>
        i + 1 < e \<and> e \<le> length s \<and> s ! (e - 1) = q)"
        using "1.IH"(2) by simp
      with eq show ?thesis by auto
    qed
  qed
qed

lemma scan_doubled_none:
  "(\<forall>j. i \<le> j \<and> j + 1 < length s \<longrightarrow> \<not> (s ! j = DQ \<and> s ! (j + 1) = DQ)) \<Longrightarrow>
   scan_doubled s start i = Inr None"
proof (induction s start i rule: scan_doubled.induct)
  case (1 s start i)
  show ?case
  proof (cases "i + 1 < length s")
    case False
    then show ?thesis by (simp add: scan_doubled.simps)
  next
    case True
    then have r: "char_at s i = Inr (s ! i)" "char_at s (i + 1) = Inr (s ! (i + 1))"
      by (simp_all add: char_at_in)
    from True "1.prems" have no: "\<not> (s ! i = DQ \<and> s ! (i + 1) = DQ)" by auto
    with True r have eq: "scan_doubled s start i = scan_doubled s start (i + 1)"
      by (subst scan_doubled.simps) auto
    from "1.prems" have "\<forall>j. i + 1 \<le> j \<and> j + 1 < length s \<longrightarrow> \<not> (s ! j = DQ \<and> s ! (j + 1) = DQ)"
      by auto
    with no True r have "scan_doubled s start (i + 1) = Inr None"
      using "1.IH" by (cases "s ! i = DQ") auto
    with eq show ?thesis by simp
  qed
qed

lemma scan_standard_none:
  "(\<forall>j. i \<le> j \<and> j < length s \<longrightarrow> s ! j \<noteq> q) \<Longrightarrow> scan_standard s q start i = Inr None"
proof (induction s q start i rule: scan_standard.induct)
  case (1 s q start i)
  show ?case
  proof (cases "i < length s")
    case False
    then show ?thesis by (simp add: scan_standard.simps)
  next
    case True
    then have r: "char_at s i = Inr (s ! i)" by (simp add: char_at_in)
    from True "1.prems" have nq: "s ! i \<noteq> q" by auto
    show ?thesis
    proof (cases "s ! i = BSL")
      case True
      with \<open>i < length s\<close> r have eq: "scan_standard s q start i = scan_standard s q start (i + 2)"
        by (subst scan_standard.simps) simp
      from "1.prems" have "\<forall>j. i + 2 \<le> j \<and> j < length s \<longrightarrow> s ! j \<noteq> q" by auto
      with True \<open>i < length s\<close> r have "scan_standard s q start (i + 2) = Inr None"
        using "1.IH"(1) by simp
      with eq show ?thesis by simp
    next
      case False
      with nq \<open>i < length s\<close> r have eq: "scan_standard s q start i = scan_standard s q start (i + 1)"
        by (subst scan_standard.simps) simp
      from "1.prems" have "\<forall>j. i + 1 \<le> j \<and> j < length s \<longrightarrow> s ! j \<noteq> q" by auto
      with False nq \<open>i < length s\<close> r have "scan_standard s q start (i + 1) = Inr None"
        using "1.IH"(2) by simp
      with eq show ?thesis by simp
    qed
  qed
qed



lemma scan_quoted_span:
  "scan_quoted s i = Inr None \<or>
   (\<exists>e c. scan_quoted s i = Inr (Some (e, c)) \<and> i < e \<and> e \<le> length s)"
proof (cases "i < length s")
  case False
  then show ?thesis by (simp add: scan_quoted_def)
next
  case True
  then have r: "char_at s i = Inr (s ! i)" by (simp add: char_at_in)
  have d: "scan_doubled s (i + 2) (i + 2) = Inr None \<or>
      (\<exists>e c. scan_doubled s (i + 2) (i + 2) = Inr (Some (e, c)) \<and> i < e \<and> e \<le> length s)"
    using scan_doubled_res [of s "i + 2" "i + 2"] by auto
  have st: "scan_standard s (s ! i) (i + 1) (i + 1) = Inr None \<or>
      (\<exists>e c. scan_standard s (s ! i) (i + 1) (i + 1) = Inr (Some (e, c)) \<and> i < e \<and> e \<le> length s)"
    using scan_standard_res [of s "s ! i" "i + 1" "i + 1"] by auto
  show ?thesis
  proof (cases "s ! i \<noteq> SQ \<and> s ! i \<noteq> DQ")
    case True
    with \<open>i < length s\<close> r show ?thesis by (simp add: scan_quoted_def)
  next
    case False
    show ?thesis
    proof (cases "s ! i = DQ \<and> i + 1 < length s")
      case dq: True
      then have r2: "char_at s (i + 1) = Inr (s ! (i + 1))" by (simp add: char_at_in)
      show ?thesis
      proof (cases "s ! (i + 1) = DQ")
        case True
        with dq False r r2 \<open>i < length s\<close>
        have "scan_quoted s i = scan_doubled s (i + 2) (i + 2)"
          by (simp add: scan_quoted_def)
        with d show ?thesis by simp
      next
        case nd: False
        with dq False r r2 \<open>i < length s\<close>
        have "scan_quoted s i = scan_standard s (s ! i) (i + 1) (i + 1)"
          by (simp add: scan_quoted_def)
        with st show ?thesis by simp
      qed
    next
      case ndq: False
      with False r \<open>i < length s\<close>
      have "scan_quoted s i = scan_standard s (s ! i) (i + 1) (i + 1)"
        by (auto simp add: scan_quoted_def)
      with st show ?thesis by simp
    qed
  qed
qed

section \<open>Character classes\<close>

text \<open>
  \<^verbatim>\<open>str.isspace\<close> and the regular-expression class \<^verbatim>\<open>\s\<close> of Python 3 agree; below
  code point 256 they hold of 9 to 13, 28 to 32, 133 and 160.
\<close>

definition is_space :: "char \<Rightarrow> bool" where
  "is_space c = (let k = (of_char c :: nat) in
     (9 \<le> k \<and> k \<le> 13) \<or> (28 \<le> k \<and> k \<le> 32) \<or> k = 133 \<or> k = 160)"

text \<open>The class \<^verbatim>\<open>\d\<close>: the decimal digits.\<close>

definition is_digit :: "char \<Rightarrow> bool" where
  "is_digit c = (let k = (of_char c :: nat) in 48 \<le> k \<and> k \<le> 57)"

text \<open>
  The class \<^verbatim>\<open>\w\<close>: the underscore and every alphanumeric code point. Below 256 these
  are the ASCII letters and digits, the Latin-1 letters, and the code points 170, 178,
  179, 181, 185, 186, 188, 189 and 190.
\<close>

definition is_word :: "char \<Rightarrow> bool" where
  "is_word c = (let k = (of_char c :: nat) in
     (48 \<le> k \<and> k \<le> 57) \<or> (65 \<le> k \<and> k \<le> 90) \<or> k = 95 \<or> (97 \<le> k \<and> k \<le> 122) \<or>
     k = 170 \<or> k = 178 \<or> k = 179 \<or> k = 181 \<or> k = 185 \<or> k = 186 \<or>
     k = 188 \<or> k = 189 \<or> k = 190 \<or>
     (192 \<le> k \<and> k \<le> 214) \<or> (216 \<le> k \<and> k \<le> 246) \<or> (248 \<le> k \<and> k \<le> 255))"

text \<open>\<^verbatim>\<open>str.lower\<close> on one character, and on a text.\<close>

definition lower_char :: "char \<Rightarrow> char" where
  "lower_char c = (let k = (of_char c :: nat) in
     if (65 \<le> k \<and> k \<le> 90) \<or> (192 \<le> k \<and> k \<le> 214) \<or> (216 \<le> k \<and> k \<le> 222)
     then char_of (k + 32) else c)"

definition lower :: "string \<Rightarrow> string" where
  "lower s = map lower_char s"

section \<open>The command tokenizer\<close>

text \<open>
  One alternative of \<^verbatim>\<open>WORD_BOUNDARY\<close>, \<^verbatim>\<open>(?<!\w)kw(?!\w)\<close> under IGNORECASE, tried
  at offset \<open>p\<close> of \<open>t\<close>: no word character just before \<open>p\<close>, the keyword in any case
  at \<open>p\<close>, no word character just after it.
\<close>

definition match_kw :: "string \<Rightarrow> string \<Rightarrow> nat \<Rightarrow> bool" where
  "match_kw t kw p =
     ((p = 0 \<or> \<not> is_word (t ! (p - 1))) \<and>
      lower (slice t p (p + length kw)) = kw \<and>
      (p + length kw \<ge> length t \<or> \<not> is_word (t ! (p + length kw))))"

text \<open>
  \<^verbatim>\<open>WORD_BOUNDARY.finditer(line)\<close> from offset \<open>p\<close> on: at each offset the alternative
  \<^verbatim>\<open>rex\<close> is tried before \<^verbatim>\<open>regex\<close>, and the search resumes at the end of a match.
  A token is \<^verbatim>\<open>(m.group(0).lower(), m.start(), m.end())\<close>.
\<close>

function tokens_from :: "string \<Rightarrow> nat \<Rightarrow> (string \<times> nat \<times> nat) list" where
  "tokens_from line p =
     (if p \<ge> length line then []
      else if match_kw line ''rex'' p then
        (lower (slice line p (p + 3)), p, p + 3) # tokens_from line (p + 3)
      else if match_kw line ''regex'' p then
        (lower (slice line p (p + 5)), p, p + 5) # tokens_from line (p + 5)
      else tokens_from line (p + 1))"
  by pat_completeness auto
termination
  by (relation "measure (\<lambda>(line, p). length line - p)") auto

declare tokens_from.simps [simp del]

definition iter_command_tokens :: "string \<Rightarrow> (string \<times> nat \<times> nat) list" where
  "iter_command_tokens line = tokens_from line 0"

section \<open>The pattern extractors\<close>

text \<open>
  An extracted pattern, the dictionary the extractors append: keys \<^verbatim>\<open>cmd\<close>,
  \<^verbatim>\<open>cmd_index_on_line\<close>, \<^verbatim>\<open>field\<close>, \<^verbatim>\<open>pattern\<close>, \<^verbatim>\<open>pattern_index_in_cmd\<close>.
\<close>

record pattern_item =
  item_cmd :: string
  item_cmd_index_on_line :: nat
  item_field :: string
  item_pattern :: string
  item_pattern_index_in_cmd :: nat

subsection \<open>rex\<close>

text \<open>\<^verbatim>\<open>while i < n and line[i].isspace(): i += 1\<close>\<close>

function skip_spaces :: "string \<Rightarrow> nat \<Rightarrow> nat" where
  "skip_spaces line i =
     (if i < length line \<and> is_space (line ! i) then skip_spaces line (i + 1) else i)"
  by pat_completeness auto
termination
  by (relation "measure (\<lambda>(line, i). length line - i)") auto

text \<open>
  \<^verbatim>\<open>while i < n and line[i] not in ("'", '"'): if line[i] == '|': break; i += 1\<close>
\<close>

function skip_args :: "string \<Rightarrow> nat \<Rightarrow> nat" where
  "skip_args line i =
     (if i < length line \<and> line ! i \<noteq> SQ \<and> line ! i \<noteq> DQ then
        (if line ! i = PIPE then i else skip_args line (i + 1))
      else i)"
  by pat_completeness auto
termination
  by (relation "measure (\<lambda>(line, i). length line - i)") auto

declare skip_spaces.simps [simp del]
declare skip_args.simps [simp del]

text \<open>
  The body of the loop of \<^verbatim>\<open>extract_from_rex\<close> for one \<^verbatim>\<open>rex\<close> token that ends at
  \<open>e\<close> and is the \<open>cmd_i\<close>-th token of the line: the items it appends.
\<close>

definition rex_occurrence :: "string \<Rightarrow> nat \<Rightarrow> nat \<Rightarrow> py_error + pattern_item list" where
  "rex_occurrence line cmd_i e =
     (let n = length line;
          i = skip_spaces line e;
          i = skip_args line i
      in if i \<ge> n \<or> line ! i = PIPE then Inr []
         else
           (case scan_quoted line i of
              Inl err \<Rightarrow> Inl err
            | Inr None \<Rightarrow> Inr []
            | Inr (Some (end, content)) \<Rightarrow>
                Inr [\<lparr>item_cmd = ''rex'', item_cmd_index_on_line = cmd_i, item_field = [],
                      item_pattern = content, item_pattern_index_in_cmd = 1\<rparr>]))"

text \<open>
  \<^verbatim>\<open>for cmd_i, (cmd, s, e) in enumerate(_iter_command_tokens(line), start=1)\<close>,
  with \<open>out\<close> the list built so far.
\<close>

fun rex_loop :: "string \<Rightarrow> (nat \<times> string \<times> nat \<times> nat) list \<Rightarrow> pattern_item list
    \<Rightarrow> py_error + pattern_item list" where
  "rex_loop line [] out = Inr out"
| "rex_loop line ((cmd_i, cmd, s, e) # rest) out =
     (if cmd \<noteq> ''rex'' then rex_loop line rest out
      else
        (case rex_occurrence line cmd_i e of
           Inl err \<Rightarrow> Inl err
         | Inr items \<Rightarrow> rex_loop line rest (out @ items)))"

definition extract_from_rex :: "string \<Rightarrow> py_error + pattern_item list" where
  "extract_from_rex line = rex_loop line (enumerate 1 (iter_command_tokens line)) []"

subsection \<open>regex\<close>

text \<open>
  \<^verbatim>\<open>_find_all_quoted(s)\<close>: the loop from offset \<open>i\<close> with the list \<open>out\<close> built so far.
  After a span the scan resumes at its end; that end lies beyond \<open>i\<close>, which is what
  makes the loop terminate.
\<close>

function find_all_quoted_from :: "string \<Rightarrow> nat \<Rightarrow> (nat \<times> nat \<times> string) list
    \<Rightarrow> py_error + (nat \<times> nat \<times> string) list" where
  "find_all_quoted_from s i out =
     (if i < length s then
        (if s ! i = SQ \<or> s ! i = DQ then
           (case scan_quoted s i of
              Inl err \<Rightarrow> Inl err
            | Inr None \<Rightarrow> find_all_quoted_from s (i + 1) out
            | Inr (Some (end, content)) \<Rightarrow> find_all_quoted_from s end (out @ [(i, end, content)]))
         else find_all_quoted_from s (i + 1) out)
      else Inr out)"
  by pat_completeness auto
termination
proof (relation "measure (\<lambda>(s, i, out). length s - i)")
  show "wf (measure (\<lambda>(s, i, out). length s - i))" by simp
next
  fix s :: string and i :: nat and out :: "(nat \<times> nat \<times> string) list"
    and x2 x2a x y
  assume "i < length s" and "scan_quoted s i = Inr x2" and "x2 = Some x2a" and "(x, y) = x2a"
  then have "scan_quoted s i = Inr (Some (x, y))" by simp
  with scan_quoted_span [of s i] have "i < x" "x \<le> length s" by auto
  with \<open>i < length s\<close>
  show "((s, x, out @ [(i, x, y)]), (s, i, out)) \<in> measure (\<lambda>(s, i, out). length s - i)"
    by simp
qed auto

declare find_all_quoted_from.simps [simp del]

definition find_all_quoted :: "string \<Rightarrow> py_error + (nat \<times> nat \<times> string) list" where
  "find_all_quoted s = find_all_quoted_from s 0 []"

text \<open>\<^verbatim>\<open>s.find(c, start)\<close> for one character \<open>c\<close>; \<open>None\<close> is Python's \<open>-1\<close>.\<close>

definition find_from :: "string \<Rightarrow> char \<Rightarrow> nat \<Rightarrow> nat option" where
  "find_from s c start =
     (let rest = drop start s
      in if c \<in> set rest then Some (start + length (takeWhile (\<lambda>x. x \<noteq> c) rest)) else None)"

text \<open>
  \<^verbatim>\<open>re.search(r"(?<!\w)regex(?!\w)", t, flags=re.IGNORECASE)\<close>: the leftmost offset where
  the keyword matches, as \<open>(m.start(), m.end())\<close>.
\<close>

definition search_regex_kw :: "string \<Rightarrow> (nat \<times> nat) option" where
  "search_regex_kw t =
     (case find (match_kw t ''regex'') [0..<length t] of
        None \<Rightarrow> None
      | Some p \<Rightarrow> Some (p, p + 5))"

text \<open>The zero-width assertion \<^verbatim>\<open>\b\<close> at offset \<open>p\<close>.\<close>

definition word_boundary :: "string \<Rightarrow> nat \<Rightarrow> bool" where
  "word_boundary t p =
     ((0 < p \<and> is_word (t ! (p - 1))) \<noteq> (p < length t \<and> is_word (t ! p)))"

text \<open>
  \<^verbatim>\<open>\bfield\s*=\s*([^\s=|]+)\<close> under IGNORECASE tried at offset \<open>p\<close>; the result is
  group 1. Each greedy run of the expression is followed by a character outside the
  run's class, so the longest run is the only one that can match.
\<close>

definition field_value_char :: "char \<Rightarrow> bool" where
  "field_value_char c = (\<not> is_space c \<and> c \<noteq> CHR ''='' \<and> c \<noteq> PIPE)"

definition match_field_at :: "string \<Rightarrow> nat \<Rightarrow> string option" where
  "match_field_at body p =
     (if word_boundary body p \<and> lower (slice body p (p + 5)) = ''field'' then
        (let q = skip_spaces body (p + 5)
         in if q < length body \<and> body ! q = CHR ''='' then
              (let r = skip_spaces body (q + 1);
                   v = takeWhile field_value_char (drop r body)
               in if v \<noteq> [] then Some v else None)
            else None)
      else None)"

text \<open>\<^verbatim>\<open>re.search\<close> of that expression: the first offset at which it matches.\<close>

definition search_field :: "string \<Rightarrow> string option" where
  "search_field body =
     (case find (\<lambda>p. match_field_at body p \<noteq> None) [0..<length body] of
        None \<Rightarrow> None
      | Some p \<Rightarrow> match_field_at body p)"

text \<open>
  \<^verbatim>\<open>(?:^|\s)(?P<name>[\w\.\-]+)\s*=\<close>: the name part tried at offset \<open>q\<close>, and the whole
  expression tried at offset \<open>p\<close>, where \<^verbatim>\<open>^\<close> (only at the start of the text) is tried
  before \<^verbatim>\<open>\s\<close>. The result is the group \<^verbatim>\<open>name\<close>.
\<close>

definition name_char :: "char \<Rightarrow> bool" where
  "name_char c = (is_word c \<or> c = CHR ''.'' \<or> c = CHR ''-'')"

definition match_name_at :: "string \<Rightarrow> nat \<Rightarrow> string option" where
  "match_name_at body q =
     (let v = takeWhile name_char (drop q body)
      in if v \<noteq> [] then
           (let r = skip_spaces body (q + length v)
            in if r < length body \<and> body ! r = CHR ''='' then Some v else None)
         else None)"

definition match_lead_at :: "string \<Rightarrow> nat \<Rightarrow> string option" where
  "match_lead_at body p =
     (case (if p = 0 then match_name_at body 0 else None) of
        Some v \<Rightarrow> Some v
      | None \<Rightarrow>
          if p < length body \<and> is_space (body ! p) then match_name_at body (p + 1) else None)"

definition search_lead :: "string \<Rightarrow> string option" where
  "search_lead body =
     (case find (\<lambda>p. match_lead_at body p \<noteq> None) [0..<length body] of
        None \<Rightarrow> None
      | Some p \<Rightarrow> match_lead_at body p)"

text \<open>The best-effort field of a \<^verbatim>\<open>regex\<close> command body.\<close>

definition regex_field :: "string \<Rightarrow> string" where
  "regex_field body =
     (case search_field body of
        Some v \<Rightarrow> v
      | None \<Rightarrow>
          (case search_lead body of
             Some name \<Rightarrow> if lower name \<noteq> ''field'' then name else []
           | None \<Rightarrow> []))"

text \<open>
  The part of one iteration of \<^verbatim>\<open>extract_from_regex\<close> after the keyword is found: the
  items appended for the command whose keyword ends at \<open>e\<close>, numbered \<open>cmd_index\<close>.
\<close>

definition regex_occurrence :: "string \<Rightarrow> nat \<Rightarrow> nat \<Rightarrow> py_error + pattern_item list" where
  "regex_occurrence line cmd_index e =
     (let body = (case find_from line PIPE e of
                    Some end \<Rightarrow> slice line e end
                  | None \<Rightarrow> drop e line);
          field = regex_field body
      in case find_all_quoted body of
           Inl err \<Rightarrow> Inl err
         | Inr quotes \<Rightarrow>
             Inr (map (\<lambda>(sub_i, qs, qe, content).
                        \<lparr>item_cmd = ''regex'', item_cmd_index_on_line = cmd_index,
                         item_field = field, item_pattern = content,
                         item_pattern_index_in_cmd = sub_i\<rparr>)
                      (enumerate 1 quotes)))"

text \<open>Where a match of the keyword ends: inside the text searched, after its first offset.\<close>

lemma search_regex_kw_end:
  assumes "search_regex_kw t = Some (ms, me)"
  shows "0 < me \<and> me \<le> length t"
proof -
  from assms obtain p where f: "find (match_kw t ''regex'') [0..<length t] = Some p"
    and me: "me = p + 5"
    by (auto simp: search_regex_kw_def split: option.splits)
  from f have "match_kw t ''regex'' p" by (auto simp: find_Some_iff)
  then have "lower (slice t p (p + length ''regex'')) = ''regex''"
    unfolding match_kw_def by blast
  then have "length (lower (slice t p (p + length ''regex''))) = length ''regex''"
    by (rule arg_cong)
  then have "p + 5 \<le> length t" by (simp add: lower_def slice_def)
  with me show ?thesis by simp
qed

text \<open>
  The \<^verbatim>\<open>while True\<close> loop of \<^verbatim>\<open>extract_from_regex\<close>, with its variables \<open>pos\<close>,
  \<open>cmd_index\<close> and \<open>out\<close>; \<^verbatim>\<open>line[pos:]\<close> is searched, and \<open>pos\<close> moves to the end of
  the keyword found.
\<close>

function regex_loop :: "string \<Rightarrow> nat \<Rightarrow> nat \<Rightarrow> pattern_item list
    \<Rightarrow> py_error + pattern_item list" where
  "regex_loop line pos cmd_index out =
     (case search_regex_kw (drop pos line) of
        None \<Rightarrow> Inr out
      | Some (ms, me) \<Rightarrow>
          (case regex_occurrence line (cmd_index + 1) (pos + me) of
             Inl err \<Rightarrow> Inl err
           | Inr items \<Rightarrow> regex_loop line (pos + me) (cmd_index + 1) (out @ items)))"
  by pat_completeness auto
termination
proof (relation "measure (\<lambda>(line, pos, cmd_index, out). length line - pos)")
  show "wf (measure (\<lambda>(line, pos, cmd_index, out). length line - pos))" by simp
next
  fix line :: string and pos cmd_index :: nat and out items :: "pattern_item list"
    and x2 :: "nat \<times> nat" and ms me :: nat
  assume "search_regex_kw (drop pos line) = Some x2" and "(ms, me) = x2"
  then have "search_regex_kw (drop pos line) = Some (ms, me)" by simp
  from search_regex_kw_end [OF this] have "0 < me" "me \<le> length line - pos" by simp_all
  then show "((line, pos + me, cmd_index + 1, out @ items), (line, pos, cmd_index, out))
      \<in> measure (\<lambda>(line, pos, cmd_index, out). length line - pos)"
    by simp
qed

declare regex_loop.simps [simp del]

definition extract_from_regex :: "string \<Rightarrow> py_error + pattern_item list" where
  "extract_from_regex line = regex_loop line 0 0 []"

section \<open>The feature detector\<close>

subsection \<open>Regular expressions\<close>

text \<open>
  The detectors are regular expressions used only through \<^verbatim>\<open>rx.search(pattern)\<close> as a
  truth value, so what matters is whether some part of the text belongs to the
  expression's language. Expressions are syntax trees; membership is decided with
  derivatives.
\<close>

datatype rx =
    Nul
  | Eps
  | Chr char
  | Cls "char \<Rightarrow> bool"
  | Seq rx rx
  | Alt rx rx
  | Star rx

fun nullable :: "rx \<Rightarrow> bool" where
  "nullable Nul = False"
| "nullable Eps = True"
| "nullable (Chr c) = False"
| "nullable (Cls P) = False"
| "nullable (Seq r1 r2) = (nullable r1 \<and> nullable r2)"
| "nullable (Alt r1 r2) = (nullable r1 \<or> nullable r2)"
| "nullable (Star r) = True"

fun deriv :: "char \<Rightarrow> rx \<Rightarrow> rx" where
  "deriv a Nul = Nul"
| "deriv a Eps = Nul"
| "deriv a (Chr c) = (if a = c then Eps else Nul)"
| "deriv a (Cls P) = (if P a then Eps else Nul)"
| "deriv a (Seq r1 r2) =
     (if nullable r1 then Alt (Seq (deriv a r1) r2) (deriv a r2) else Seq (deriv a r1) r2)"
| "deriv a (Alt r1 r2) = Alt (deriv a r1) (deriv a r2)"
| "deriv a (Star r) = Seq (deriv a r) (Star r)"

text \<open>Some prefix of the text matches: \<^verbatim>\<open>rx.match(s) is not None\<close>.\<close>

fun matches_prefix :: "rx \<Rightarrow> string \<Rightarrow> bool" where
  "matches_prefix r [] = nullable r"
| "matches_prefix r (c # cs) = (nullable r \<or> matches_prefix (deriv c r) cs)"

text \<open>Some part of the text matches: \<^verbatim>\<open>rx.search(s) is not None\<close>.\<close>

fun rx_search :: "rx \<Rightarrow> string \<Rightarrow> bool" where
  "rx_search r [] = nullable r"
| "rx_search r (c # cs) = (matches_prefix r (c # cs) \<or> rx_search r cs)"

text \<open>
  The same for an expression that starts with the lookbehind \<^verbatim>\<open>(?<!\\)\<close>: a match may
  not start just after a backslash. \<open>prev\<close> is the character before the text, if any.
\<close>

fun rx_search_unescaped :: "char option \<Rightarrow> rx \<Rightarrow> string \<Rightarrow> bool" where
  "rx_search_unescaped prev r [] = (prev \<noteq> Some BSL \<and> nullable r)"
| "rx_search_unescaped prev r (c # cs) =
     ((prev \<noteq> Some BSL \<and> matches_prefix r (c # cs)) \<or> rx_search_unescaped (Some c) r cs)"

text \<open>Notation of the expressions: a literal text, \<^verbatim>\<open>+\<close>, \<^verbatim>\<open>?\<close>, a choice of several.\<close>

definition Lit :: "string \<Rightarrow> rx" where
  "Lit s = foldr (\<lambda>c r. Seq (Chr c) r) s Eps"

definition Plus :: "rx \<Rightarrow> rx" where
  "Plus r = Seq r (Star r)"

definition Opt :: "rx \<Rightarrow> rx" where
  "Opt r = Alt r Eps"

definition Alts :: "rx list \<Rightarrow> rx" where
  "Alts rs = foldr Alt rs Nul"

definition Seqs :: "rx list \<Rightarrow> rx" where
  "Seqs rs = foldr Seq rs Eps"

text \<open>The character classes the detectors use.\<close>

definition ascii_letter_or_underscore :: "char \<Rightarrow> bool" where
  "ascii_letter_or_underscore c = (let k = (of_char c :: nat) in
     (65 \<le> k \<and> k \<le> 90) \<or> (97 \<le> k \<and> k \<le> 122) \<or> k = 95)"

definition ascii_alnum_or_underscore :: "char \<Rightarrow> bool" where
  "ascii_alnum_or_underscore c = (ascii_letter_or_underscore c \<or> is_digit c)"

definition ascii_upper :: "char \<Rightarrow> bool" where
  "ascii_upper c = (let k = (of_char c :: nat) in 65 \<le> k \<and> k \<le> 90)"

definition digit_1_9 :: "char \<Rightarrow> bool" where
  "digit_1_9 c = (let k = (of_char c :: nat) in 49 \<le> k \<and> k \<le> 57)"

definition flag_char :: "char \<Rightarrow> bool" where
  "flag_char c = (c \<in> set ''imsUx'')"

definition flag_or_minus :: "char \<Rightarrow> bool" where
  "flag_or_minus c = (c \<in> set ''imsUx-'')"

subsection \<open>The catalog\<close>

text \<open>
  A detector is an expression, or an expression behind the lookbehind \<^verbatim>\<open>(?<!\\)\<close>.
  \<open>DETECTORS\<close> lists the entries of the dictionary in its order.
\<close>

datatype detector = Anywhere rx | Unescaped rx

fun detector_search :: "detector \<Rightarrow> string \<Rightarrow> bool" where
  "detector_search (Anywhere r) s = rx_search r s"
| "detector_search (Unescaped r) s = rx_search_unescaped None r s"

definition DETECTORS :: "(string \<times> detector) list" where
  "DETECTORS =
   [(''lookahead'', Anywhere (Alt (Lit ''(?='') (Lit ''(?!''))),
    (''lookbehind'', Anywhere (Alt (Lit ''(?<='') (Lit ''(?<!''))),
    (''atomic_group'', Anywhere (Lit ''(?>'')),
    (''possessive_quantifier'', Unescaped (Alts [Lit ''++'', Lit ''*+'', Lit ''?+''])),
    (''backtracking_control'',
       Anywhere (Seqs [Lit ''(*'',
         Alts [Lit ''PRUNE'', Lit ''SKIP'', Lit ''COMMIT'', Lit ''THEN'', Lit ''ACCEPT'', Lit ''FAIL''],
         Lit '')''])),
    (''branch_reset'', Anywhere (Lit ''(?|'')),
    (''recursion'', Anywhere (Alt (Lit ''(?R)'') (Lit ''(?0)''))),
    (''subroutine_number'',
       Anywhere (Seqs [Chr BSL, Chr CHR ''g'',
         Alt (Plus (Cls is_digit)) (Seqs [Chr CHR ''{'', Plus (Cls is_digit), Chr CHR ''}''])])),
    (''subroutine_name'',
       Anywhere (Alt
         (Seqs [Chr BSL, Chr CHR ''g'',
            Cls (\<lambda>c. c = SQ \<or> c = CHR ''{''),
            Cls ascii_letter_or_underscore, Star (Cls ascii_alnum_or_underscore),
            Cls (\<lambda>c. c = SQ \<or> c = CHR ''}'')])
         (Seqs [Lit ''(?&'', Cls ascii_letter_or_underscore,
            Star (Cls ascii_alnum_or_underscore), Lit '')'']))),
    (''conditional'',
       Anywhere (Seqs [Lit ''(?('', Star (Cls (\<lambda>c. c \<noteq> CHR '')'')), Lit '')''])),
    (''callout'', Anywhere (Seqs [Lit ''(?C'', Star (Cls is_digit), Lit '')''])),
    (''named_backref_k'',
       Anywhere (Seqs [Chr BSL, Lit ''k<'', Plus (Cls (\<lambda>c. c \<noteq> CHR ''>'')), Lit ''>''])),
    (''named_capture_angle'',
       Anywhere (Seqs [Lit ''(?<'', Cls ascii_letter_or_underscore, Star (Cls is_word), Lit ''>''])),
    (''named_capture_single'',
       Anywhere (Seqs [Lit ''(?'', Chr SQ, Cls ascii_letter_or_underscore, Star (Cls is_word),
         Chr SQ])),
    (''backref_number'', Unescaped (Seqs [Chr BSL, Cls digit_1_9, Star (Cls is_digit)])),
    (''inline_flags'',
       Anywhere (Seqs [Lit ''(?'', Plus (Cls flag_or_minus),
         Opt (Seq (Chr CHR ''-'') (Plus (Cls flag_char))), Lit '')''])),
    (''mode_modifier'',
       Anywhere (Seqs [Lit ''(*'',
         Alts [Lit ''UTF8'', Lit ''UTF'', Lit ''UCP'', Lit ''NO_START_OPT'',
               Seq (Lit ''BSR_'') (Plus (Cls ascii_upper))],
         Lit '')'']))]"

text \<open>\<^verbatim>\<open>detect_features(pattern)\<close>: the names whose detector finds a match, in catalog order.\<close>

definition detect_features :: "string \<Rightarrow> string list" where
  "detect_features pattern =
     map fst (filter (\<lambda>(name, rx). detector_search rx pattern) DETECTORS)"

section \<open>The compatibility classifier\<close>

definition JAVA_INCOMPATIBLE :: "string set" where
  "JAVA_INCOMPATIBLE =
     {''backtracking_control'', ''branch_reset'', ''recursion'', ''subroutine_number'',
      ''subroutine_name'', ''conditional'', ''callout'', ''mode_modifier''}"

definition LUCENE_INCOMPATIBLE :: "string set" where
  "LUCENE_INCOMPATIBLE =
     {''lookahead'', ''lookbehind'', ''atomic_group'', ''possessive_quantifier'',
      ''backtracking_control'', ''branch_reset'', ''recursion'', ''subroutine_number'',
      ''subroutine_name'', ''conditional'', ''callout'', ''named_backref_k'',
      ''named_capture_angle'', ''named_capture_single'', ''backref_number'',
      ''inline_flags'', ''mode_modifier''}"

text \<open>
  \<^verbatim>\<open>incompatible_for(engine, features)\<close>; \<^verbatim>\<open>sorted\<close> orders the names by code points,
  which is the lexicographic order of \<^typ>\<open>string\<close>. An unknown engine raises ValueError.
\<close>

definition incompatible_for :: "string \<Rightarrow> string list \<Rightarrow> py_error + (bool \<times> string list)" where
  "incompatible_for engine features =
     (if engine = ''java'' then
        (let bad = sort (filter (\<lambda>f. f \<in> JAVA_INCOMPATIBLE) features)
         in Inr (length bad > 0, bad))
      else if engine = ''lucene'' then
        (let bad = sort (filter (\<lambda>f. f \<in> LUCENE_INCOMPATIBLE) features)
         in Inr (length bad > 0, bad))
      else Inl ValueError)"

section \<open>The analysis of a file\<close>

text \<open>
  The dictionary \<^verbatim>\<open>totals\<close>. The two feature-count dictionaries are association lists in
  insertion order.
\<close>

record totals =
  lines :: nat
  rex_commands :: nat
  regex_commands :: nat
  total_patterns :: nat
  java_incompatible_patterns :: nat
  lucene_incompatible_patterns :: nat
  java_feature_counts :: "(string \<times> nat) list"
  lucene_feature_counts :: "(string \<times> nat) list"

text \<open>
  A row of the report. The keys \<^verbatim>\<open>field\<close>, \<^verbatim>\<open>pattern\<close> and \<^verbatim>\<open>line\<close> of the source are
  \<open>row_field\<close>, \<open>row_pattern\<close> and \<open>row_line\<close> here.
\<close>

record row =
  line_number :: nat
  command :: string
  cmd_index_on_line :: nat
  pattern_index_in_cmd :: nat
  row_field :: string
  row_pattern :: string
  features_detected :: string
  java_incompatible :: bool
  java_incompat_features :: string
  lucene_incompatible :: bool
  lucene_incompat_features :: string
  row_line :: string

text \<open>\<^verbatim>\<open>d.get(k, dflt)\<close> and \<^verbatim>\<open>d[k] = v\<close> on a dictionary.\<close>

definition dict_get :: "(string \<times> nat) list \<Rightarrow> string \<Rightarrow> nat \<Rightarrow> nat" where
  "dict_get d k dflt = (case map_of d k of None \<Rightarrow> dflt | Some v \<Rightarrow> v)"

fun dict_set :: "(string \<times> nat) list \<Rightarrow> string \<Rightarrow> nat \<Rightarrow> (string \<times> nat) list" where
  "dict_set [] k v = [(k, v)]"
| "dict_set ((k', v') # d) k v = (if k' = k then (k, v) # d else (k', v') # dict_set d k v)"

text \<open>\<^verbatim>\<open>for ftr in feats: d[ftr] = d.get(ftr, 0) + 1\<close>\<close>

definition count_features :: "(string \<times> nat) list \<Rightarrow> string list \<Rightarrow> (string \<times> nat) list" where
  "count_features d feats = foldl (\<lambda>d ftr. dict_set d ftr (dict_get d ftr 0 + 1)) d feats"

text \<open>\<^verbatim>\<open>sep.join(xs)\<close>, \<^verbatim>\<open>line.rstrip("\n")\<close> and \<^verbatim>\<open>line.strip()\<close>.\<close>

fun join :: "string \<Rightarrow> string list \<Rightarrow> string" where
  "join sep [] = []"
| "join sep [x] = x"
| "join sep (x # y # ys) = x @ sep @ join sep (y # ys)"

definition rstrip_newline :: "string \<Rightarrow> string" where
  "rstrip_newline s = rev (dropWhile (\<lambda>c. c = NL) (rev s))"

definition strip :: "string \<Rightarrow> string" where
  "strip s = rev (dropWhile is_space (rev (dropWhile is_space s)))"

text \<open>
  The body of \<^verbatim>\<open>for item in rex_items + regex_items\<close> for the line numbered \<open>i\<close>: the
  rows and the totals before, and after.
\<close>

definition analyze_item :: "nat \<Rightarrow> string \<Rightarrow> row list \<times> totals \<Rightarrow> pattern_item
    \<Rightarrow> py_error + (row list \<times> totals)" where
  "analyze_item i line st item =
     (let rows = fst st;
          tot = snd st;
          tot = tot\<lparr>total_patterns := total_patterns tot + 1\<rparr>;
          feats = detect_features (item_pattern item)
      in case incompatible_for ''java'' feats of
           Inl err \<Rightarrow> Inl err
         | Inr (java_bad, java_feats) \<Rightarrow>
             (case incompatible_for ''lucene'' feats of
                Inl err \<Rightarrow> Inl err
              | Inr (luc_bad, luc_feats) \<Rightarrow>
                  (let tot = (if java_bad then
                                tot\<lparr>java_incompatible_patterns := java_incompatible_patterns tot + 1,
                                    java_feature_counts :=
                                      count_features (java_feature_counts tot) java_feats\<rparr>
                              else tot);
                       tot = (if luc_bad then
                                tot\<lparr>lucene_incompatible_patterns := lucene_incompatible_patterns tot + 1,
                                    lucene_feature_counts :=
                                      count_features (lucene_feature_counts tot) luc_feats\<rparr>
                              else tot)
                   in Inr (rows @
                            [\<lparr>line_number = i,
                              command = item_cmd item,
                              cmd_index_on_line = item_cmd_index_on_line item,
                              pattern_index_in_cmd = item_pattern_index_in_cmd item,
                              row_field = item_field item,
                              row_pattern = item_pattern item,
                              features_detected = join '','' feats,
                              java_incompatible = java_bad,
                              java_incompat_features = join '','' java_feats,
                              lucene_incompatible = luc_bad,
                              lucene_incompat_features = join '','' luc_feats,
                              row_line = line\<rparr>],
                          tot))))"

fun analyze_items :: "nat \<Rightarrow> string \<Rightarrow> row list \<times> totals \<Rightarrow> pattern_item list
    \<Rightarrow> py_error + (row list \<times> totals)" where
  "analyze_items i line st [] = Inr st"
| "analyze_items i line st (item # items) =
     (case analyze_item i line st item of
        Inl err \<Rightarrow> Inl err
      | Inr st' \<Rightarrow> analyze_items i line st' items)"

text \<open>
  The body of \<^verbatim>\<open>for i, line in enumerate(f, start=1)\<close>; \<open>raw\<close> is the line as the file
  yields it, with its newline. \<^verbatim>\<open>len({x['cmd_index_on_line'] for x in items})\<close> is the
  number of distinct indices.
\<close>

definition analyze_line :: "nat \<Rightarrow> string \<Rightarrow> row list \<times> totals
    \<Rightarrow> py_error + (row list \<times> totals)" where
  "analyze_line i raw st =
     (let line = rstrip_newline raw
      in if strip line = [] then Inr st
         else
           (let rows = fst st;
                tot = snd st;
                tot = tot\<lparr>lines := lines tot + 1\<rparr>
            in case extract_from_rex line of
                 Inl err \<Rightarrow> Inl err
               | Inr rex_items \<Rightarrow>
                   (case extract_from_regex line of
                      Inl err \<Rightarrow> Inl err
                    | Inr regex_items \<Rightarrow>
                        (let tot = (if rex_items \<noteq> [] then
                                      tot\<lparr>rex_commands := rex_commands tot +
                                        length (remdups (map item_cmd_index_on_line rex_items))\<rparr>
                                    else tot);
                             tot = (if regex_items \<noteq> [] then
                                      tot\<lparr>regex_commands := regex_commands tot +
                                        length (remdups (map item_cmd_index_on_line regex_items))\<rparr>
                                    else tot)
                         in analyze_items i line (rows, tot) (rex_items @ regex_items)))))"

fun analyze_lines :: "(nat \<times> string) list \<Rightarrow> row list \<times> totals
    \<Rightarrow> py_error + (row list \<times> totals)" where
  "analyze_lines [] st = Inr st"
| "analyze_lines ((i, raw) # rest) st =
     (case analyze_line i raw st of
        Inl err \<Rightarrow> Inl err
      | Inr st' \<Rightarrow> analyze_lines rest st')"

definition initial_totals :: totals where
  "initial_totals =
     \<lparr>lines = 0, rex_commands = 0, regex_commands = 0, total_patterns = 0,
      java_incompatible_patterns = 0, lucene_incompatible_patterns = 0,
      java_feature_counts = [], lucene_feature_counts = []\<rparr>"

text \<open>
  \<^verbatim>\<open>analyze_file\<close>, given the lines the opened file yields one after the other (each with
  its newline, the last one possibly without).
\<close>

definition analyze_file :: "string list \<Rightarrow> py_error + (row list \<times> totals)" where
  "analyze_file file_lines = analyze_lines (enumerate 1 file_lines) ([], initial_totals)"

section \<open>The command line\<close>

text \<open>
  What \<^verbatim>\<open>main\<close> sees of its environment: the text files there are (a path that names no
  file has none), and the two path operations of the library it uses, taken as
  parameters. A path that exists is taken to be a readable text file, and the working
  directory to be writable.
\<close>

record world =
  file_at :: "string \<Rightarrow> string list option"
  expanduser :: "string \<Rightarrow> string"
  stem :: "string \<Rightarrow> string"

text \<open>
  What a run leaves: its exit code, the lines printed to the error stream, and the files
  written, each with the data serialised into it. The console summary on the standard
  output is not modelled.
\<close>

datatype report = CsvReport "row list" | JsonReport totals

record outcome =
  exit_code :: int
  error_stream :: "string list"
  written :: "(string \<times> report) list"

definition usage :: string where
  "usage = ''Usage: python spl_regex_portability_audit.py /path/to/queries.txt''"

definition write_reports :: "world \<Rightarrow> string \<Rightarrow> row list \<Rightarrow> totals \<Rightarrow> (string \<times> report) list" where
  "write_reports w input_path rows tot =
     [(stem w input_path @ ''.portability_audit.csv'', CsvReport rows),
      (stem w input_path @ ''.portability_audit.json'', JsonReport tot)]"

text \<open>
  \<^verbatim>\<open>main()\<close> with \<^verbatim>\<open>sys.argv = argv\<close>. An exception that nothing catches ends the
  process with exit code 1 and a traceback on the error stream.
\<close>

definition main :: "world \<Rightarrow> string list \<Rightarrow> outcome" where
  "main w argv =
     (if length argv \<noteq> 2 then
        \<lparr>exit_code = 2, error_stream = [usage], written = []\<rparr>
      else
        (let input_path = expanduser w (argv ! 1)
         in case file_at w input_path of
              None \<Rightarrow>
                \<lparr>exit_code = 1, error_stream = [''Input file not found: '' @ input_path],
                 written = []\<rparr>
            | Some file_lines \<Rightarrow>
                (case analyze_file file_lines of
                   Inl err \<Rightarrow> \<lparr>exit_code = 1, error_stream = [''Traceback''], written = []\<rparr>
                 | Inr (rows, tot) \<Rightarrow>
                     \<lparr>exit_code = 0, error_stream = [],
                      written = write_reports w input_path rows tot\<rparr>)))"

section \<open>Statements taken from the specification\<close>

text \<open>
  The specification speaks of a decoded content, "escapes resolved": a backslash-escaped
  character appears without its escaping backslash. This is that decoding, written from
  the specification's words; the program has no such function.
\<close>

fun spec_resolve_escapes :: "string \<Rightarrow> string" where
  "spec_resolve_escapes [] = []"
| "spec_resolve_escapes [c] = [c]"
| "spec_resolve_escapes (c # d # cs) =
     (if c = BSL then d # spec_resolve_escapes cs else c # spec_resolve_escapes (d # cs))"

text \<open>
  The specification describes where the rex extractor stops skipping: at the first quote
  character, \<^verbatim>\<open>|\<close> or line end at or after the end \<open>e\<close> of the keyword.
\<close>

definition rex_stop :: "string \<Rightarrow> nat \<Rightarrow> nat" where
  "rex_stop line e = e + length (takeWhile (\<lambda>c. c \<noteq> SQ \<and> c \<noteq> DQ \<and> c \<noteq> PIPE) (drop e line))"

text \<open>
  The specification lets a backslash immediately before a character make that character
  literal. Counted from the start of the quoted content, a character is escaped when an
  odd number of backslashes stands immediately before it: of two backslashes in a row the
  first escapes the second, which then escapes nothing.
\<close>

definition backslashes_before :: "string \<Rightarrow> nat \<Rightarrow> nat \<Rightarrow> nat" where
  "backslashes_before s start j = length (takeWhile (\<lambda>c. c = BSL) (rev (slice s start j)))"

definition escaped :: "string \<Rightarrow> nat \<Rightarrow> nat \<Rightarrow> bool" where
  "escaped s start j = odd (backslashes_before s start j)"

text \<open>
  The specification's command occurrences: every offset of the line at which one of the
  two keywords stands as a whole word, in any case, from left to right, with the keyword
  in lower case and its start and end offsets; and the rex occurrences among them, each
  with its 1-based index among all occurrences of the line.
\<close>

definition occurrence_at :: "string \<Rightarrow> nat \<Rightarrow> (string \<times> nat \<times> nat) list" where
  "occurrence_at line p =
     (if match_kw line ''rex'' p then [(''rex'', p, p + 3)]
      else if match_kw line ''regex'' p then [(''regex'', p, p + 5)]
      else [])"

definition command_occurrences :: "string \<Rightarrow> (string \<times> nat \<times> nat) list" where
  "command_occurrences line = concat (map (occurrence_at line) [0..<length line])"

definition rex_occurrences :: "string \<Rightarrow> (nat \<times> string \<times> nat \<times> nat) list" where
  "rex_occurrences line =
     filter (\<lambda>occ. fst (snd occ) = ''rex'') (enumerate 1 (command_occurrences line))"

section \<open>Bookkeeping of the analysis\<close>

text \<open>
  Notions used to state what the analysis accumulates: the offending features of a row
  for a table (what \<^verbatim>\<open>incompatible_for\<close> lists for the row's pattern), the sum of a
  feature-count dictionary, a row that stems from an item of a given line, totals that
  grow by a list of new rows, and the rows a line contributes.
\<close>

definition offending :: "string set \<Rightarrow> row \<Rightarrow> string list" where
  "offending table r = sort (filter (\<lambda>f. f \<in> table) (detect_features (row_pattern r)))"

definition feature_total :: "(string \<times> nat) list \<Rightarrow> nat" where
  "feature_total d = sum_list (map snd d)"

definition row_of :: "nat \<Rightarrow> string \<Rightarrow> row \<Rightarrow> pattern_item \<Rightarrow> bool" where
  "row_of i line r item =
     (line_number r = i \<and> row_line r = line \<and> row_pattern r = item_pattern item \<and>
      java_incompatible r = (offending JAVA_INCOMPATIBLE r \<noteq> []) \<and>
      lucene_incompatible r = (offending LUCENE_INCOMPATIBLE r \<noteq> []))"

definition grows_by :: "row list \<times> totals \<Rightarrow> row list \<Rightarrow> row list \<times> totals \<Rightarrow> bool" where
  "grows_by st new st' =
     (fst st' = fst st @ new \<and>
      java_incompatible_patterns (snd st') =
        java_incompatible_patterns (snd st) + length (filter java_incompatible new) \<and>
      feature_total (java_feature_counts (snd st')) =
        feature_total (java_feature_counts (snd st)) +
          sum_list (map (\<lambda>r. length (offending JAVA_INCOMPATIBLE r)) new) \<and>
      lucene_incompatible_patterns (snd st') =
        lucene_incompatible_patterns (snd st) + length (filter lucene_incompatible new) \<and>
      feature_total (lucene_feature_counts (snd st')) =
        feature_total (lucene_feature_counts (snd st)) +
          sum_list (map (\<lambda>r. length (offending LUCENE_INCOMPATIBLE r)) new))"

definition line_rows :: "nat \<Rightarrow> string \<Rightarrow> row list \<Rightarrow> bool" where
  "line_rows i raw new =
     (if strip (rstrip_newline raw) = [] then new = []
      else (\<exists>rex_items regex_items.
              extract_from_rex (rstrip_newline raw) = Inr rex_items \<and>
              extract_from_regex (rstrip_newline raw) = Inr regex_items \<and>
              list_all2 (row_of i (rstrip_newline raw)) new (rex_items @ regex_items)))"

section \<open>Properties of the scanner\<close>

text \<open>Which loop \<^verbatim>\<open>_scan_quoted\<close> enters.\<close>

lemma scan_quoted_doubled:
  assumes "i + 1 < length s" "s ! i = DQ" "s ! (i + 1) = DQ"
  shows "scan_quoted s i = scan_doubled s (i + 2) (i + 2)"
  using assms by (simp add: scan_quoted_def char_at_in)

lemma scan_quoted_standard:
  assumes "i < length s" "s ! i = SQ \<or> s ! i = DQ"
    "\<not> (i + 1 < length s \<and> s ! i = DQ \<and> s ! (i + 1) = DQ)"
  shows "scan_quoted s i = scan_standard s (s ! i) (i + 1) (i + 1)"
  using assms by (auto simp add: scan_quoted_def char_at_in)

text \<open>
  Escaping along the standard loop: the loop visits exactly the characters that are not
  escaped, so it ends at the first unescaped occurrence of the quote character, and
  returns no span when there is none. The doubled loop ends at the first adjacent pair.
\<close>

lemma slice_Suc:
  assumes "start \<le> j" "j < length s"
  shows "slice s start (Suc j) = slice s start j @ [s ! j]"
proof -
  from assms have "Suc j - start = Suc (j - start)" by simp
  moreover from assms have "j - start < length (drop start s)" by simp
  ultimately have "take (Suc j - start) (drop start s) =
      take (j - start) (drop start s) @ [drop start s ! (j - start)]"
    by (simp add: take_Suc_conv_app_nth)
  with assms show ?thesis by (simp add: slice_def)
qed

lemma backslashes_before_start: "backslashes_before s start start = 0"
  by (simp add: backslashes_before_def slice_def)

lemma backslashes_before_Suc:
  assumes "start \<le> j" "j < length s"
  shows "backslashes_before s start (Suc j) =
         (if s ! j = BSL then Suc (backslashes_before s start j) else 0)"
  using assms by (simp add: backslashes_before_def slice_Suc)

lemma escaped_start: "\<not> escaped s start start"
  by (simp add: escaped_def backslashes_before_start)

lemma escaped_after_other:
  assumes "start \<le> j" "j < length s" "s ! j \<noteq> BSL"
  shows "\<not> escaped s start (Suc j)"
  using assms by (simp add: escaped_def backslashes_before_Suc)

lemma escaped_after_backslash:
  assumes "start \<le> j" "j < length s" "s ! j = BSL"
  shows "escaped s start (Suc j) = (\<not> escaped s start j)"
  using assms by (simp add: escaped_def backslashes_before_Suc)

lemma unescaped_after_pair:
  assumes "start \<le> j" "Suc j < length s" "s ! j = BSL" "\<not> escaped s start j"
  shows "\<not> escaped s start (Suc (Suc j))"
proof (cases "s ! Suc j = BSL")
  case True
  with assms have "escaped s start (Suc (Suc j)) = (\<not> escaped s start (Suc j))"
    by (intro escaped_after_backslash) simp_all
  also from assms have "escaped s start (Suc j) = (\<not> escaped s start j)"
    by (intro escaped_after_backslash) simp_all
  finally show ?thesis using assms(4) by simp
next
  case False
  with assms show ?thesis by (intro escaped_after_other) simp_all
qed

lemma scan_standard_unclosed:
  assumes "q \<noteq> BSL" "start \<le> i" "i < length s \<longrightarrow> \<not> escaped s start i"
    "\<forall>j. i \<le> j \<and> j < length s \<and> s ! j = q \<longrightarrow> escaped s start j"
  shows "scan_standard s q start i = Inr None"
  using assms
proof (induction s q start i rule: scan_standard.induct)
  case (1 s q start i)
  show ?case
  proof (cases "i < length s")
    case False
    then show ?thesis by (simp add: scan_standard.simps)
  next
    case True
    then have r: "char_at s i = Inr (s ! i)" by (simp add: char_at_in)
    from True "1.prems" have ne: "\<not> escaped s start i" by simp
    with True "1.prems"(4) have nq: "s ! i \<noteq> q" by auto
    show ?thesis
    proof (cases "s ! i = BSL")
      case bs: True
      with True r have eq: "scan_standard s q start i = scan_standard s q start (i + 2)"
        by (subst scan_standard.simps) simp
      have "i + 2 < length s \<longrightarrow> \<not> escaped s start (i + 2)"
        using unescaped_after_pair [of start i s] "1.prems"(2) bs ne by simp
      moreover from "1.prems"(4)
      have "\<forall>j. i + 2 \<le> j \<and> j < length s \<and> s ! j = q \<longrightarrow> escaped s start j" by simp
      ultimately have "scan_standard s q start (i + 2) = Inr None"
        using "1.IH"(1) [OF True r bs] "1.prems"(1,2) by simp
      with eq show ?thesis by simp
    next
      case nb: False
      with nq True r have eq: "scan_standard s q start i = scan_standard s q start (i + 1)"
        by (subst scan_standard.simps) simp
      have "i + 1 < length s \<longrightarrow> \<not> escaped s start (i + 1)"
        using escaped_after_other [of start i s] "1.prems"(2) nb True by simp
      moreover from "1.prems"(4) nq
      have "\<forall>j. i + 1 \<le> j \<and> j < length s \<and> s ! j = q \<longrightarrow> escaped s start j"
        by (metis Suc_eq_plus1 Suc_leD)
      ultimately have "scan_standard s q start (i + 1) = Inr None"
        using "1.IH"(2) [OF True r nb nq] "1.prems"(1,2) by simp
      with eq show ?thesis by simp
    qed
  qed
qed

lemma scan_standard_closed:
  assumes "q \<noteq> BSL" "start \<le> i" "\<not> escaped s start i"
    "i \<le> j" "j < length s" "s ! j = q" "\<not> escaped s start j"
    "\<forall>k. i \<le> k \<and> k < j \<and> s ! k = q \<longrightarrow> escaped s start k"
  shows "scan_standard s q start i = Inr (Some (j + 1, slice s start j))"
  using assms
proof (induction s q start i rule: scan_standard.induct)
  case (1 s q start i)
  from "1.prems" have il: "i < length s" by simp
  then have r: "char_at s i = Inr (s ! i)" by (simp add: char_at_in)
  show ?case
  proof (cases "s ! i = BSL")
    case bs: True
    with il r have eq: "scan_standard s q start i = scan_standard s q start (i + 2)"
      by (subst scan_standard.simps) simp
    from bs "1.prems"(1,6) have "j \<noteq> i" by auto
    moreover have "j \<noteq> i + 1"
    proof
      assume "j = i + 1"
      with "1.prems"(2,3,7) il bs escaped_after_backslash [of start i s] show False by simp
    qed
    ultimately have ij: "i + 2 \<le> j" using "1.prems"(4) by simp
    with "1.prems"(5) have "Suc i < length s" by simp
    with unescaped_after_pair [of start i s] "1.prems"(2,3) bs
    have "\<not> escaped s start (i + 2)" by simp
    moreover from "1.prems"(8)
    have "\<forall>k. i + 2 \<le> k \<and> k < j \<and> s ! k = q \<longrightarrow> escaped s start k" by simp
    ultimately have "scan_standard s q start (i + 2) = Inr (Some (j + 1, slice s start j))"
      using "1.IH"(1) [OF il r bs] "1.prems"(1,2,5,6,7) ij by simp
    with eq show ?thesis by simp
  next
    case nb: False
    show ?thesis
    proof (cases "s ! i = q")
      case True
      with "1.prems"(3,4,8) have "j = i"
        by (metis le_neq_implies_less le_refl)
      moreover from True nb il r
      have "scan_standard s q start i = Inr (Some (i + 1, slice s start i))"
        by (subst scan_standard.simps) simp
      ultimately show ?thesis by simp
    next
      case nq: False
      with nb il r have eq: "scan_standard s q start i = scan_standard s q start (i + 1)"
        by (subst scan_standard.simps) simp
      from nq "1.prems"(6) have "j \<noteq> i" by auto
      with "1.prems"(4) have ij: "i + 1 \<le> j" by simp
      from escaped_after_other [of start i s] "1.prems"(2) nb il
      have "\<not> escaped s start (i + 1)" by simp
      moreover from "1.prems"(8)
      have "\<forall>k. i + 1 \<le> k \<and> k < j \<and> s ! k = q \<longrightarrow> escaped s start k" by simp
      ultimately have "scan_standard s q start (i + 1) = Inr (Some (j + 1, slice s start j))"
        using "1.IH"(2) [OF il r nb nq] "1.prems"(1,2,5,6,7) ij by simp
      with eq show ?thesis by simp
    qed
  qed
qed

lemma scan_doubled_closed:
  assumes "i \<le> j" "j + 1 < length s" "s ! j = DQ" "s ! (j + 1) = DQ"
    "\<forall>k. i \<le> k \<and> k < j \<longrightarrow> \<not> (s ! k = DQ \<and> s ! (k + 1) = DQ)"
  shows "scan_doubled s start i = Inr (Some (j + 2, slice s start j))"
  using assms
proof (induction s start i rule: scan_doubled.induct)
  case (1 s start i)
  from "1.prems" have il: "i + 1 < length s" by simp
  then have r: "char_at s i = Inr (s ! i)" "char_at s (i + 1) = Inr (s ! (i + 1))"
    by (simp_all add: char_at_in)
  show ?case
  proof (cases "s ! i = DQ \<and> s ! (i + 1) = DQ")
    case True
    with "1.prems"(1,5) have "j = i" by (metis le_neq_implies_less le_refl)
    moreover from True il r have "scan_doubled s start i = Inr (Some (i + 2, slice s start i))"
      by (simp add: scan_doubled.simps)
    ultimately show ?thesis by simp
  next
    case False
    with il r have eq: "scan_doubled s start i = scan_doubled s start (i + 1)"
      by (subst scan_doubled.simps) auto
    from False "1.prems"(3,4) have "j \<noteq> i" by auto
    with "1.prems"(1) have ij: "i + 1 \<le> j" by simp
    from "1.prems"(5)
    have n: "\<forall>k. i + 1 \<le> k \<and> k < j \<longrightarrow> \<not> (s ! k = DQ \<and> s ! (k + 1) = DQ)" by simp
    have "scan_doubled s start (i + 1) = Inr (Some (j + 2, slice s start j))"
    proof (cases "s ! i = DQ")
      case True
      with False have "s ! (i + 1) \<noteq> DQ" by simp
      from "1.IH"(1) [OF il r(1) True r(2) this ij "1.prems"(2,3,4) n] show ?thesis .
    next
      case nd: False
      from "1.IH"(2) [OF il r(1) nd ij "1.prems"(2,3,4) n] show ?thesis .
    qed
    with eq show ?thesis by simp
  qed
qed

lemma scan_doubled_None_iff:
  "(scan_doubled s start i = Inr None) =
   (\<forall>j. i \<le> j \<and> j + 1 < length s \<longrightarrow> \<not> (s ! j = DQ \<and> s ! (j + 1) = DQ))"
proof
  assume n: "scan_doubled s start i = Inr None"
  show "\<forall>j. i \<le> j \<and> j + 1 < length s \<longrightarrow> \<not> (s ! j = DQ \<and> s ! (j + 1) = DQ)"
  proof (rule ccontr)
    assume "\<not> (\<forall>j. i \<le> j \<and> j + 1 < length s \<longrightarrow> \<not> (s ! j = DQ \<and> s ! (j + 1) = DQ))"
    then have "\<exists>j. i \<le> j \<and> j + 1 < length s \<and> s ! j = DQ \<and> s ! (j + 1) = DQ" by blast
    then obtain j where j: "i \<le> j \<and> j + 1 < length s \<and> s ! j = DQ \<and> s ! (j + 1) = DQ"
      and least: "\<forall>k<j. \<not> (i \<le> k \<and> k + 1 < length s \<and> s ! k = DQ \<and> s ! (k + 1) = DQ)"
      unfolding exists_least_iff [of "\<lambda>j. i \<le> j \<and> j + 1 < length s \<and> s ! j = DQ \<and> s ! (j + 1) = DQ"]
      by blast
    from least j have "\<forall>k. i \<le> k \<and> k < j \<longrightarrow> \<not> (s ! k = DQ \<and> s ! (k + 1) = DQ)"
      by auto
    with j have "scan_doubled s start i = Inr (Some (j + 2, slice s start j))"
      by (intro scan_doubled_closed) simp_all
    with n show False by simp
  qed
next
  assume "\<forall>j. i \<le> j \<and> j + 1 < length s \<longrightarrow> \<not> (s ! j = DQ \<and> s ! (j + 1) = DQ)"
  then show "scan_doubled s start i = Inr None" by (rule scan_doubled_none)
qed

lemma scan_standard_None_iff:
  assumes "q \<noteq> BSL"
  shows "(scan_standard s q start start = Inr None) =
         (\<forall>j. start \<le> j \<and> j < length s \<and> s ! j = q \<longrightarrow> escaped s start j)"
proof
  assume n: "scan_standard s q start start = Inr None"
  show "\<forall>j. start \<le> j \<and> j < length s \<and> s ! j = q \<longrightarrow> escaped s start j"
  proof (rule ccontr)
    assume "\<not> (\<forall>j. start \<le> j \<and> j < length s \<and> s ! j = q \<longrightarrow> escaped s start j)"
    then have "\<exists>j. start \<le> j \<and> j < length s \<and> s ! j = q \<and> \<not> escaped s start j" by blast
    then obtain j where j: "start \<le> j \<and> j < length s \<and> s ! j = q \<and> \<not> escaped s start j"
      and least: "\<forall>k<j. \<not> (start \<le> k \<and> k < length s \<and> s ! k = q \<and> \<not> escaped s start k)"
      unfolding exists_least_iff [of "\<lambda>j. start \<le> j \<and> j < length s \<and> s ! j = q \<and> \<not> escaped s start j"]
      by blast
    from least j have "\<forall>k. start \<le> k \<and> k < j \<and> s ! k = q \<longrightarrow> escaped s start k"
      by auto
    with j assms escaped_start [of s start]
    have "scan_standard s q start start = Inr (Some (j + 1, slice s start j))"
      by (intro scan_standard_closed) simp_all
    with n show False by simp
  qed
next
  assume "\<forall>j. start \<le> j \<and> j < length s \<and> s ! j = q \<longrightarrow> escaped s start j"
  with assms escaped_start [of s start] show "scan_standard s q start start = Inr None"
    by (intro scan_standard_unclosed) simp_all
qed

text \<open>
  Claim C3. For every text \<open>s\<close> and every offset \<open>i\<close> the scanner returns, without
  raising (its result is never an \<open>Inl\<close>, so no read leaves the text): either no span, or
  a span whose end lies beyond \<open>i\<close> and not beyond the end of the text. It returns no
  span exactly when no closing sequence exists before the end of the text: in the doubled
  dialect, when no adjacent pair of double quotes follows the opening pair; in the standard
  dialect, when every later occurrence of the opening quote character is escaped.
\<close>

theorem scan_quoted_total:
  "(scan_quoted s i = Inr None \<or>
      (\<exists>e c. scan_quoted s i = Inr (Some (e, c)) \<and> i < e \<and> e \<le> length s)) \<and>
   (i + 1 < length s \<and> s ! i = DQ \<and> s ! (i + 1) = DQ \<longrightarrow>
      (scan_quoted s i = Inr None) =
      (\<forall>j. i + 2 \<le> j \<and> j + 1 < length s \<longrightarrow> \<not> (s ! j = DQ \<and> s ! (j + 1) = DQ))) \<and>
   (i < length s \<and> (s ! i = SQ \<or> s ! i = DQ) \<and>
      \<not> (i + 1 < length s \<and> s ! i = DQ \<and> s ! (i + 1) = DQ) \<longrightarrow>
      (scan_quoted s i = Inr None) =
      (\<forall>j. i < j \<and> j < length s \<and> s ! j = s ! i \<longrightarrow> escaped s (i + 1) j))"
proof -
  have a: "scan_quoted s i = Inr None \<or>
      (\<exists>e c. scan_quoted s i = Inr (Some (e, c)) \<and> i < e \<and> e \<le> length s)"
    by (rule scan_quoted_span)
  have b: "(scan_quoted s i = Inr None) =
      (\<forall>j. i + 2 \<le> j \<and> j + 1 < length s \<longrightarrow> \<not> (s ! j = DQ \<and> s ! (j + 1) = DQ))"
    if "i + 1 < length s \<and> s ! i = DQ \<and> s ! (i + 1) = DQ"
  proof -
    from that have "scan_quoted s i = scan_doubled s (i + 2) (i + 2)"
      by (simp add: scan_quoted_doubled)
    then show ?thesis by (simp only: scan_doubled_None_iff)
  qed
  have c: "(scan_quoted s i = Inr None) =
      (\<forall>j. i < j \<and> j < length s \<and> s ! j = s ! i \<longrightarrow> escaped s (i + 1) j)"
    if h: "i < length s \<and> (s ! i = SQ \<or> s ! i = DQ) \<and>
      \<not> (i + 1 < length s \<and> s ! i = DQ \<and> s ! (i + 1) = DQ)"
  proof -
    from h have "scan_quoted s i = scan_standard s (s ! i) (i + 1) (i + 1)"
      by (intro scan_quoted_standard) auto
    moreover from h have "s ! i \<noteq> BSL" by auto
    then have "(scan_standard s (s ! i) (i + 1) (i + 1) = Inr None) =
        (\<forall>j. i + 1 \<le> j \<and> j < length s \<and> s ! j = s ! i \<longrightarrow> escaped s (i + 1) j)"
      by (rule scan_standard_None_iff)
    ultimately have "(scan_quoted s i = Inr None) =
        (\<forall>j. i + 1 \<le> j \<and> j < length s \<and> s ! j = s ! i \<longrightarrow> escaped s (i + 1) j)"
      by (simp only:)
    then show ?thesis by (simp add: Suc_le_eq)
  qed
  from a b c show ?thesis by blast
qed

theorem scan_quoted_total_witness:
  "scan_quoted [DQ, CHR ''a'', BSL, DQ] 0 = Inr None \<and>
   scan_quoted [DQ, BSL, BSL, DQ] 0 \<noteq> Inr None \<and>
   scan_quoted [DQ, DQ, CHR ''a'', DQ] 0 = Inr None \<and>
   scan_quoted [DQ, DQ, CHR ''a'', DQ, DQ] 0 \<noteq> Inr None \<and>
   (\<exists>e c. scan_quoted [DQ, CHR ''a'', DQ] 0 = Inr (Some (e, c)) \<and> 0 < e \<and> e \<le> 3)"
proof -
  let ?u = "[DQ, CHR ''a'', BSL, DQ]"
  let ?v = "[DQ, BSL, BSL, DQ]"
  let ?d = "[DQ, DQ, CHR ''a'', DQ]"
  let ?e = "[DQ, DQ, CHR ''a'', DQ, DQ]"
  let ?t = "[DQ, CHR ''a'', DQ]"
  have u: "\<forall>j. 0 < j \<and> j < length ?u \<and> ?u ! j = ?u ! 0 \<longrightarrow> escaped ?u (0 + 1) j"
  proof (intro allI impI)
    fix j :: nat
    assume h: "0 < j \<and> j < length ?u \<and> ?u ! j = ?u ! 0"
    then have "j = 1 \<or> j = 2 \<or> j = 3" by auto
    with h have "j = 3" by auto
    moreover have "escaped ?u (0 + 1) 3" by code_simp
    ultimately show "escaped ?u (0 + 1) j" by simp
  qed
  have v: "\<not> (\<forall>j. 0 < j \<and> j < length ?v \<and> ?v ! j = ?v ! 0 \<longrightarrow> escaped ?v (0 + 1) j)"
  proof -
    have "0 < (3::nat) \<and> 3 < length ?v \<and> ?v ! 3 = ?v ! 0" by simp
    moreover have "\<not> escaped ?v (0 + 1) 3" by code_simp
    ultimately show ?thesis by blast
  qed
  have d: "\<forall>j. 0 + 2 \<le> j \<and> j + 1 < length ?d \<longrightarrow> \<not> (?d ! j = DQ \<and> ?d ! (j + 1) = DQ)"
  proof (intro allI impI)
    fix j :: nat
    assume "0 + 2 \<le> j \<and> j + 1 < length ?d"
    then have "j = 2" by simp
    then show "\<not> (?d ! j = DQ \<and> ?d ! (j + 1) = DQ)" by simp
  qed
  have e: "\<not> (\<forall>j. 0 + 2 \<le> j \<and> j + 1 < length ?e \<longrightarrow> \<not> (?e ! j = DQ \<and> ?e ! (j + 1) = DQ))"
  proof -
    have "0 + 2 \<le> (3::nat) \<and> 3 + 1 < length ?e \<and> ?e ! 3 = DQ \<and> ?e ! (3 + 1) = DQ" by simp
    then show ?thesis by blast
  qed
  have hu: "0 < length ?u \<and> (?u ! 0 = SQ \<or> ?u ! 0 = DQ) \<and>
      \<not> (0 + 1 < length ?u \<and> ?u ! 0 = DQ \<and> ?u ! (0 + 1) = DQ)" by simp
  have hv: "0 < length ?v \<and> (?v ! 0 = SQ \<or> ?v ! 0 = DQ) \<and>
      \<not> (0 + 1 < length ?v \<and> ?v ! 0 = DQ \<and> ?v ! (0 + 1) = DQ)" by simp
  have hd: "0 + 1 < length ?d \<and> ?d ! 0 = DQ \<and> ?d ! (0 + 1) = DQ" by simp
  have he: "0 + 1 < length ?e \<and> ?e ! 0 = DQ \<and> ?e ! (0 + 1) = DQ" by simp
  from scan_quoted_total [of ?u 0] hu u have 1: "scan_quoted ?u 0 = Inr None" by blast
  from scan_quoted_total [of ?v 0] hv v have 2: "scan_quoted ?v 0 \<noteq> Inr None" by blast
  from scan_quoted_total [of ?d 0] hd d have 3: "scan_quoted ?d 0 = Inr None" by blast
  from scan_quoted_total [of ?e 0] he e have 4: "scan_quoted ?e 0 \<noteq> Inr None" by blast
  have 5: "\<exists>e c. scan_quoted ?t 0 = Inr (Some (e, c)) \<and> 0 < e \<and> e \<le> 3"
  proof -
    have c: "scan_quoted ?t 0 \<noteq> Inr None" by code_simp
    from scan_quoted_total [of ?t 0]
    have "scan_quoted ?t 0 = Inr None \<or>
      (\<exists>e c. scan_quoted ?t 0 = Inr (Some (e, c)) \<and> 0 < e \<and> e \<le> length ?t)"
      by (rule conjunct1)
    with c show ?thesis by (simp add: numeral_3_eq_3)
  qed
  from 1 2 3 4 5 show ?thesis by blast
qed

text \<open>
  Claim C2, as stated, fails: under the backslash-escaped dialect the content returned for
  the six characters \<^verbatim>\<open>"a\"b"\<close> is the four characters \<^verbatim>\<open>a\"b\<close>, backslash included,
  and not the decoded \<^verbatim>\<open>a"b\<close>.
\<close>

theorem scan_quoted_content_counterexample:
  "scan_quoted [DQ, CHR ''a'', BSL, DQ, CHR ''b'', DQ] 0 = Inr (Some (6, [CHR ''a'', BSL, DQ, CHR ''b''])) \<and>
   [CHR ''a'', BSL, DQ, CHR ''b''] \<noteq> spec_resolve_escapes (slice [DQ, CHR ''a'', BSL, DQ, CHR ''b'', DQ] 1 5)"
  by code_simp

text \<open>
  Claim C2, amended. Whenever the scanner succeeds, under every dialect, the content is
  the text between the opening and the closing marker, passed through unmodified: after
  two opening and before two closing double quotes in the doubled dialect, after one
  opening and before one closing quote character otherwise.
\<close>

theorem scan_quoted_content_literal:
  assumes "scan_quoted s i = Inr (Some (e, c))"
  shows "if i + 1 < length s \<and> s ! i = DQ \<and> s ! (i + 1) = DQ
         then i + 4 \<le> e \<and> c = slice s (i + 2) (e - 2)
         else i + 2 \<le> e \<and> c = slice s (i + 1) (e - 1)"
proof (cases "i + 1 < length s \<and> s ! i = DQ \<and> s ! (i + 1) = DQ")
  case True
  then have "scan_quoted s i = scan_doubled s (i + 2) (i + 2)"
    by (simp add: scan_quoted_doubled)
  with assms scan_doubled_res [of s "i + 2" "i + 2"] True show ?thesis by auto
next
  case False
  from assms have il: "i < length s"
    by (cases "i < length s") (simp_all add: scan_quoted_def)
  from assms il have q: "s ! i = SQ \<or> s ! i = DQ"
    by (cases "s ! i = SQ \<or> s ! i = DQ") (auto simp add: scan_quoted_def char_at_in)
  from il q False have "scan_quoted s i = scan_standard s (s ! i) (i + 1) (i + 1)"
    by (intro scan_quoted_standard) auto
  with assms scan_standard_res [of s "s ! i" "i + 1" "i + 1"] False show ?thesis by auto
qed

theorem scan_quoted_content_literal_witness:
  "[CHR ''a'', BSL, DQ, CHR ''b''] = slice [DQ, CHR ''a'', BSL, DQ, CHR ''b'', DQ] 1 5"
proof -
  have "scan_quoted [DQ, CHR ''a'', BSL, DQ, CHR ''b'', DQ] 0 = Inr (Some (6, [CHR ''a'', BSL, DQ, CHR ''b'']))"
    by code_simp
  from scan_quoted_content_literal [OF this] show ?thesis by simp
qed

section \<open>Properties of the classifier\<close>

lemma sort_eq_Nil: "(sort xs = []) = (xs = [])"
  by (metis length_sort length_0_conv)

lemma incompatible_for_java:
  "incompatible_for ''java'' features =
     Inr (0 < length (sort (filter (\<lambda>f. f \<in> JAVA_INCOMPATIBLE) features)),
          sort (filter (\<lambda>f. f \<in> JAVA_INCOMPATIBLE) features))"
  by (simp add: incompatible_for_def Let_def sort_eq_Nil)

lemma incompatible_for_lucene:
  "incompatible_for ''lucene'' features =
     Inr (0 < length (sort (filter (\<lambda>f. f \<in> LUCENE_INCOMPATIBLE) features)),
          sort (filter (\<lambda>f. f \<in> LUCENE_INCOMPATIBLE) features))"
  by (simp add: incompatible_for_def Let_def sort_eq_Nil)

text \<open>
  Claim C8. The Java table is a subset of the Lucene table; so for every list of features
  both classifications return, a pattern incompatible with Java is incompatible with
  Lucene, and the offending features for Java are a sublist of those for Lucene.
\<close>

theorem java_table_within_lucene:
  "JAVA_INCOMPATIBLE \<subseteq> LUCENE_INCOMPATIBLE \<and>
   (\<exists>java_bad java_feats luc_bad luc_feats.
      incompatible_for ''java'' features = Inr (java_bad, java_feats) \<and>
      incompatible_for ''lucene'' features = Inr (luc_bad, luc_feats) \<and>
      (java_bad \<longrightarrow> luc_bad) \<and> subseq java_feats luc_feats)"
proof -
  have sub: "JAVA_INCOMPATIBLE \<subseteq> LUCENE_INCOMPATIBLE"
    unfolding JAVA_INCOMPATIBLE_def LUCENE_INCOMPATIBLE_def by (intro subsetI) auto
  let ?j = "sort (filter (\<lambda>f. f \<in> JAVA_INCOMPATIBLE) features)"
  let ?l = "sort (filter (\<lambda>f. f \<in> LUCENE_INCOMPATIBLE) features)"
  have "filter (\<lambda>f. f \<in> JAVA_INCOMPATIBLE) (filter (\<lambda>f. f \<in> LUCENE_INCOMPATIBLE) features)
      = filter (\<lambda>f. f \<in> JAVA_INCOMPATIBLE) features"
    using sub by (auto simp: filter_filter intro: filter_cong)
  then have "?j = filter (\<lambda>f. f \<in> JAVA_INCOMPATIBLE) ?l"
    by (simp add: filter_sort)
  then have ss: "subseq ?j ?l" by (metis subseq_filter_left)
  then have "length ?j \<le> length ?l" by (rule list_emb_length)
  then have imp: "0 < length ?j \<longrightarrow> 0 < length ?l" by linarith
  have "incompatible_for ''java'' features = Inr (0 < length ?j, ?j)"
    by (rule incompatible_for_java)
  moreover have "incompatible_for ''lucene'' features = Inr (0 < length ?l, ?l)"
    by (rule incompatible_for_lucene)
  ultimately show ?thesis using sub ss imp by blast
qed

theorem java_table_within_lucene_witness:
  "\<exists>java_feats luc_feats.
      incompatible_for ''java'' [''recursion'', ''lookahead''] = Inr (True, java_feats) \<and>
      incompatible_for ''lucene'' [''recursion'', ''lookahead''] = Inr (True, luc_feats) \<and>
      subseq java_feats luc_feats"
proof -
  have "incompatible_for ''java'' [''recursion'', ''lookahead''] = Inr (True, [''recursion''])"
    by code_simp
  with java_table_within_lucene [of "[''recursion'', ''lookahead'']"] show ?thesis by auto
qed

section \<open>Properties of the extractors\<close>

text \<open>
  The two skipping loops of \<^verbatim>\<open>extract_from_rex\<close> stop where the specification says; so
  one occurrence yields no item or one, and never raises.
\<close>

lemma skip_spaces_eq: "skip_spaces line i = i + length (takeWhile is_space (drop i line))"
proof (induction line i rule: skip_spaces.induct)
  case (1 line i)
  show ?case
  proof (cases "i < length line \<and> is_space (line ! i)")
    case True
    then have d: "drop i line = line ! i # drop (i + 1) line"
      by (simp add: Cons_nth_drop_Suc)
    from True have "skip_spaces line i = skip_spaces line (i + 1)"
      by (subst skip_spaces.simps) simp
    also from True have "\<dots> = (i + 1) + length (takeWhile is_space (drop (i + 1) line))"
      by (rule "1.IH")
    finally show ?thesis using True d by simp
  next
    case False
    then have s: "skip_spaces line i = i" by (subst skip_spaces.simps) auto
    show ?thesis
    proof (cases "i < length line")
      case True
      with False have "\<not> is_space (line ! i)" by simp
      moreover from True have "drop i line = line ! i # drop (i + 1) line"
        by (simp add: Cons_nth_drop_Suc)
      ultimately show ?thesis using s by simp
    next
      case False
      with s show ?thesis by simp
    qed
  qed
qed

lemma skip_args_eq:
  "skip_args line i = i + length (takeWhile (\<lambda>c. c \<noteq> SQ \<and> c \<noteq> DQ \<and> c \<noteq> PIPE) (drop i line))"
proof (induction line i rule: skip_args.induct)
  case (1 line i)
  show ?case
  proof (cases "i < length line")
    case False
    then show ?thesis by (subst skip_args.simps) simp
  next
    case True
    then have d: "drop i line = line ! i # drop (i + 1) line"
      by (simp add: Cons_nth_drop_Suc)
    show ?thesis
    proof (cases "line ! i \<noteq> SQ \<and> line ! i \<noteq> DQ \<and> line ! i \<noteq> PIPE")
      case False
      with True have "skip_args line i = i" by (subst skip_args.simps) auto
      with False d show ?thesis by auto
    next
      case go: True
      with True have "skip_args line i = skip_args line (i + 1)"
        by (subst skip_args.simps) simp
      also from True go
      have "\<dots> = (i + 1) + length (takeWhile (\<lambda>c. c \<noteq> SQ \<and> c \<noteq> DQ \<and> c \<noteq> PIPE) (drop (i + 1) line))"
        by (intro "1.IH") simp_all
      finally show ?thesis using go d by simp
    qed
  qed
qed

lemma takeWhile_twice:
  assumes "\<And>x. Q x \<Longrightarrow> P x"
  shows "length (takeWhile Q xs) + length (takeWhile P (drop (length (takeWhile Q xs)) xs))
       = length (takeWhile P xs)"
  using assms by (induction xs) auto

lemma space_is_no_stop: "is_space c \<Longrightarrow> c \<noteq> SQ \<and> c \<noteq> DQ \<and> c \<noteq> PIPE"
  by (auto simp: is_space_def)

lemma skip_to_rex_stop: "skip_args line (skip_spaces line e) = rex_stop line e"
proof -
  let ?k = "length (takeWhile is_space (drop e line))"
  have "skip_args line (skip_spaces line e) =
      e + ?k + length (takeWhile (\<lambda>c. c \<noteq> SQ \<and> c \<noteq> DQ \<and> c \<noteq> PIPE) (drop ?k (drop e line)))"
    by (simp add: skip_spaces_eq skip_args_eq add.commute)
  also have "\<dots> = rex_stop line e"
    using takeWhile_twice [of is_space "\<lambda>c. c \<noteq> SQ \<and> c \<noteq> DQ \<and> c \<noteq> PIPE" "drop e line"]
      space_is_no_stop
    by (simp add: rex_stop_def)
  finally show ?thesis .
qed

lemma rex_occurrence_cases:
  "rex_occurrence line cmd_i e =
     (if rex_stop line e \<ge> length line \<or> line ! rex_stop line e = PIPE then Inr []
      else case scan_quoted line (rex_stop line e) of
             Inl err \<Rightarrow> Inl err
           | Inr None \<Rightarrow> Inr []
           | Inr (Some (end, content)) \<Rightarrow>
               Inr [\<lparr>item_cmd = ''rex'', item_cmd_index_on_line = cmd_i, item_field = [],
                     item_pattern = content, item_pattern_index_in_cmd = 1\<rparr>])"
  by (simp add: rex_occurrence_def Let_def skip_to_rex_stop)

lemma rex_occurrence_Inr: "\<exists>items. rex_occurrence line cmd_i e = Inr items"
  using scan_quoted_span [of line "rex_stop line e"]
  by (auto simp: rex_occurrence_cases)

lemma rex_loop_per_occurrence:
  "\<exists>per. rex_loop line toks out = Inr (out @ concat per) \<and>
     list_all2 (\<lambda>items tok. rex_occurrence line (fst tok) (snd (snd (snd tok))) = Inr items) per
       (filter (\<lambda>tok. fst (snd tok) = ''rex'') toks)"
proof (induction toks arbitrary: out)
  case Nil
  show ?case by (rule exI [of _ "[]"]) simp
next
  case (Cons t toks)
  obtain cmd_i cmd s e where t: "t = (cmd_i, cmd, s, e)" by (cases t) auto
  show ?case
  proof (cases "cmd = ''rex''")
    case False
    with t Cons.IH [of out] show ?thesis by simp
  next
    case True
    from rex_occurrence_Inr obtain items where i: "rex_occurrence line cmd_i e = Inr items"
      by blast
    from Cons.IH [of "out @ items"] obtain per where
      p: "rex_loop line toks (out @ items) = Inr ((out @ items) @ concat per)"
         "list_all2 (\<lambda>items tok. rex_occurrence line (fst tok) (snd (snd (snd tok))) = Inr items) per
           (filter (\<lambda>tok. fst (snd tok) = ''rex'') toks)"
      by blast
    show ?thesis
      by (rule exI [of _ "items # per"]) (use t True i p in simp)
  qed
qed

text \<open>
  The tokenizer yields exactly the command occurrences of the line: a keyword that
  matches leaves no room for another match before its end, since each of its letters is
  a word character, so resuming the search at the end of a match skips nothing.
\<close>

lemma is_word_lower:
  assumes "is_word (lower_char c)"
  shows "is_word c"
proof (cases "(65 \<le> (of_char c :: nat) \<and> (of_char c :: nat) \<le> 90) \<or>
             (192 \<le> (of_char c :: nat) \<and> (of_char c :: nat) \<le> 214) \<or>
             (216 \<le> (of_char c :: nat) \<and> (of_char c :: nat) \<le> 222)")
  case True
  then show ?thesis unfolding is_word_def Let_def by linarith
next
  case False
  then have "lower_char c = c" unfolding lower_char_def Let_def by (simp only: if_False)
  with assms show ?thesis by simp
qed

lemma match_kw_length:
  assumes "match_kw t kw p" "kw \<noteq> []"
  shows "p + length kw \<le> length t"
proof -
  from assms(1) have "lower (slice t p (p + length kw)) = kw" unfolding match_kw_def by blast
  then have "length (lower (slice t p (p + length kw))) = length kw" by simp
  then have "min (length t - p) (length kw) = length kw" by (simp add: lower_def slice_def)
  moreover from assms(2) have "0 < length kw" by simp
  ultimately show ?thesis by arith
qed

lemma match_kw_char:
  assumes "match_kw t kw p" "k < length kw"
  shows "lower_char (t ! (p + k)) = kw ! k"
proof -
  from assms(1) have e: "lower (slice t p (p + length kw)) = kw" unfolding match_kw_def by blast
  from assms have l: "p + length kw \<le> length t" by (intro match_kw_length) auto
  from e have "lower (slice t p (p + length kw)) ! k = kw ! k" by simp
  moreover from assms(2) l have "lower (slice t p (p + length kw)) ! k = lower_char (t ! (p + k))"
    by (simp add: lower_def slice_def)
  ultimately show ?thesis by simp
qed

lemma no_match_inside:
  assumes "match_kw t kw p" "\<forall>c\<in>set kw. is_word c" "p < q" "q < p + length kw"
  shows "\<not> match_kw t kw' q"
proof -
  from assms(3,4) have k: "q - 1 - p < length kw" by simp
  from assms(3) have "p + (q - 1 - p) = q - 1" by simp
  with match_kw_char [OF assms(1) k] have "lower_char (t ! (q - 1)) = kw ! (q - 1 - p)" by simp
  moreover from k assms(2) have "is_word (kw ! (q - 1 - p))" by simp
  ultimately have "is_word (t ! (q - 1))" by (simp add: is_word_lower)
  with assms(3) show ?thesis by (simp add: match_kw_def)
qed

lemma rex_letters: "\<forall>c\<in>set ''rex''. is_word c"
  by (simp add: is_word_def)

lemma regex_letters: "\<forall>c\<in>set ''regex''. is_word c"
  by (simp add: is_word_def)

lemma no_occurrence_inside:
  assumes "match_kw t kw p" "kw = ''rex'' \<or> kw = ''regex''" "p < q" "q < p + length kw"
  shows "occurrence_at t q = []"
  using assms no_match_inside [OF assms(1) _ assms(3,4)] rex_letters regex_letters
  by (auto simp: occurrence_at_def)

lemma concat_skip:
  assumes "p + n \<le> m" "\<forall>q. p < q \<and> q < p + n \<longrightarrow> f q = []" "0 < n"
  shows "concat (map f [p..<m]) = f p @ concat (map f [p + n..<m])"
proof -
  from assms(1) have "[p..<p + n + (m - (p + n))] = [p..<p + n] @ [p + n..<p + n + (m - (p + n))]"
    by (intro upt_add_eq_append) simp
  with assms(1) have "[p..<m] = [p..<p + n] @ [p + n..<m]" by simp
  moreover from assms(3) have "[p..<p + n] = p # [Suc p..<p + n]"
    by (simp add: upt_conv_Cons)
  ultimately have "[p..<m] = p # [Suc p..<p + n] @ [p + n..<m]" by simp
  moreover from assms(2) have "concat (map f [Suc p..<p + n]) = []" by auto
  ultimately show ?thesis by simp
qed

lemma tokens_from_eq:
  "tokens_from line p = concat (map (occurrence_at line) [p..<length line])"
proof (induction line p rule: tokens_from.induct)
  case (1 line p)
  show ?case
  proof (cases "p \<ge> length line")
    case True
    then show ?thesis by (subst tokens_from.simps) simp
  next
    case in_range: False
    show ?thesis
    proof (cases "match_kw line ''rex'' p")
      case True
      from match_kw_length [OF True] have len: "p + 3 \<le> length line" by simp
      from True have "lower (slice line p (p + length ''rex'')) = ''rex''"
        unfolding match_kw_def by blast
      then have low: "lower (slice line p (p + 3)) = ''rex''" by (simp add: eval_nat_numeral)
      from in_range True low have "tokens_from line p = (''rex'', p, p + 3) # tokens_from line (p + 3)"
        by (subst tokens_from.simps) simp
      also from "1.IH"(1) [OF in_range True]
      have "tokens_from line (p + 3) = concat (map (occurrence_at line) [p + 3..<length line])" .
      also have "(''rex'', p, p + 3) # concat (map (occurrence_at line) [p + 3..<length line])
          = occurrence_at line p @ concat (map (occurrence_at line) [p + 3..<length line])"
        using True by (simp add: occurrence_at_def)
      also have "\<dots> = concat (map (occurrence_at line) [p..<length line])"
      proof (rule concat_skip [symmetric])
        show "p + 3 \<le> length line" by (rule len)
        show "\<forall>q. p < q \<and> q < p + 3 \<longrightarrow> occurrence_at line q = []"
          using no_occurrence_inside [OF True] by simp
        show "0 < (3::nat)" by simp
      qed
      finally show ?thesis .
    next
      case no_rex: False
      show ?thesis
      proof (cases "match_kw line ''regex'' p")
        case True
        from match_kw_length [OF True] have len: "p + 5 \<le> length line" by simp
        from True have "lower (slice line p (p + length ''regex'')) = ''regex''"
          unfolding match_kw_def by blast
        then have low: "lower (slice line p (p + 5)) = ''regex''"
          by (simp add: eval_nat_numeral)
        from in_range no_rex True low
        have "tokens_from line p = (''regex'', p, p + 5) # tokens_from line (p + 5)"
          by (subst tokens_from.simps) simp
        also from "1.IH"(2) [OF in_range no_rex True]
        have "tokens_from line (p + 5) = concat (map (occurrence_at line) [p + 5..<length line])" .
        also have "(''regex'', p, p + 5) # concat (map (occurrence_at line) [p + 5..<length line])
            = occurrence_at line p @ concat (map (occurrence_at line) [p + 5..<length line])"
          using True no_rex by (simp add: occurrence_at_def)
        also have "\<dots> = concat (map (occurrence_at line) [p..<length line])"
        proof (rule concat_skip [symmetric])
          show "p + 5 \<le> length line" by (rule len)
          show "\<forall>q. p < q \<and> q < p + 5 \<longrightarrow> occurrence_at line q = []"
            using no_occurrence_inside [OF True] by simp
          show "0 < (5::nat)" by simp
        qed
        finally show ?thesis .
      next
        case False
        with in_range no_rex have "tokens_from line p = tokens_from line (p + 1)"
          by (subst tokens_from.simps) simp
        also from "1.IH"(3) [OF in_range no_rex False]
        have "\<dots> = concat (map (occurrence_at line) [p + 1..<length line])" .
        also from in_range no_rex False
        have "\<dots> = concat (map (occurrence_at line) [p..<length line])"
          by (simp add: upt_conv_Cons occurrence_at_def)
        finally show ?thesis .
      qed
    qed
  qed
qed

lemma iter_command_tokens_eq: "iter_command_tokens line = command_occurrences line"
  by (simp add: iter_command_tokens_def command_occurrences_def tokens_from_eq)

text \<open>
  Claim C4. For every line, the result of \<^verbatim>\<open>extract_from_rex\<close> is the concatenation of
  one list of items per rex occurrence of the line, in order. For every rex occurrence:
  if the skipping stops at the line end or at a \<^verbatim>\<open>|\<close>, or the scan at the stop fails,
  its list is empty; otherwise the scan succeeds and its list is exactly one item, with
  pattern index 1, an empty field, the scanned content, and the occurrence's index among
  all command occurrences of the line.
\<close>

theorem rex_occurrence_records:
  "\<exists>per. extract_from_rex line = Inr (concat per) \<and>
     length per = length (rex_occurrences line) \<and>
     (\<forall>k < length (rex_occurrences line).
        (length line \<le> rex_stop line (snd (snd (snd (rex_occurrences line ! k)))) \<or>
         line ! rex_stop line (snd (snd (snd (rex_occurrences line ! k)))) = PIPE \<or>
         scan_quoted line (rex_stop line (snd (snd (snd (rex_occurrences line ! k))))) = Inr None
           \<longrightarrow> per ! k = []) \<and>
        (\<not> (length line \<le> rex_stop line (snd (snd (snd (rex_occurrences line ! k)))) \<or>
            line ! rex_stop line (snd (snd (snd (rex_occurrences line ! k)))) = PIPE \<or>
            scan_quoted line (rex_stop line (snd (snd (snd (rex_occurrences line ! k))))) = Inr None)
           \<longrightarrow> (\<exists>end content.
                  scan_quoted line (rex_stop line (snd (snd (snd (rex_occurrences line ! k)))))
                    = Inr (Some (end, content)) \<and>
                  per ! k =
                    [\<lparr>item_cmd = ''rex'',
                      item_cmd_index_on_line = fst (rex_occurrences line ! k),
                      item_field = [], item_pattern = content,
                      item_pattern_index_in_cmd = 1\<rparr>])))"
proof -
  from rex_loop_per_occurrence [of line "enumerate 1 (iter_command_tokens line)" "[]"]
  obtain per where
    e: "extract_from_rex line = Inr (concat per)" and
    l: "list_all2 (\<lambda>items tok. rex_occurrence line (fst tok) (snd (snd (snd tok))) = Inr items)
          per (rex_occurrences line)"
    by (auto simp: extract_from_rex_def rex_occurrences_def iter_command_tokens_eq)
  from l have len: "length per = length (rex_occurrences line)" by (rule list_all2_lengthD)
  have each: "rex_occurrence line (fst (rex_occurrences line ! k))
        (snd (snd (snd (rex_occurrences line ! k)))) = Inr (per ! k)"
    if "k < length (rex_occurrences line)" for k
    using l that len by (simp add: list_all2_conv_all_nth)
  have "(length line \<le> rex_stop line (snd (snd (snd (rex_occurrences line ! k)))) \<or>
         line ! rex_stop line (snd (snd (snd (rex_occurrences line ! k)))) = PIPE \<or>
         scan_quoted line (rex_stop line (snd (snd (snd (rex_occurrences line ! k))))) = Inr None
           \<longrightarrow> per ! k = []) \<and>
        (\<not> (length line \<le> rex_stop line (snd (snd (snd (rex_occurrences line ! k)))) \<or>
            line ! rex_stop line (snd (snd (snd (rex_occurrences line ! k)))) = PIPE \<or>
            scan_quoted line (rex_stop line (snd (snd (snd (rex_occurrences line ! k))))) = Inr None)
           \<longrightarrow> (\<exists>end content.
                  scan_quoted line (rex_stop line (snd (snd (snd (rex_occurrences line ! k)))))
                    = Inr (Some (end, content)) \<and>
                  per ! k =
                    [\<lparr>item_cmd = ''rex'',
                      item_cmd_index_on_line = fst (rex_occurrences line ! k),
                      item_field = [], item_pattern = content,
                      item_pattern_index_in_cmd = 1\<rparr>]))"
    if k: "k < length (rex_occurrences line)" for k
  proof -
    let ?e = "snd (snd (snd (rex_occurrences line ! k)))"
    let ?c = "fst (rex_occurrences line ! k)"
    from each [OF k] have r: "rex_occurrence line ?c ?e = Inr (per ! k)" .
    show ?thesis
    proof (cases "length line \<le> rex_stop line ?e \<or> line ! rex_stop line ?e = PIPE \<or>
        scan_quoted line (rex_stop line ?e) = Inr None")
      case True
      then have "rex_occurrence line ?c ?e = Inr []" by (auto simp: rex_occurrence_cases)
      with r True show ?thesis by simp
    next
      case False
      with scan_quoted_span [of line "rex_stop line ?e"] obtain en content where
        s: "scan_quoted line (rex_stop line ?e) = Inr (Some (en, content))" by auto
      with False have "rex_occurrence line ?c ?e =
          Inr [\<lparr>item_cmd = ''rex'', item_cmd_index_on_line = ?c, item_field = [],
                item_pattern = content, item_pattern_index_in_cmd = 1\<rparr>]"
        by (auto simp: rex_occurrence_cases)
      with r s False show ?thesis by auto
    qed
  qed
  with e len show ?thesis by blast
qed

theorem rex_occurrence_records_witness:
  "extract_from_rex (''rex '' @ [DQ] @ ''foo(bar)'' @ [DQ]) =
     Inr [\<lparr>item_cmd = ''rex'', item_cmd_index_on_line = 1, item_field = [],
           item_pattern = ''foo(bar)'', item_pattern_index_in_cmd = 1\<rparr>] \<and>
   extract_from_rex (''rex '' @ [DQ] @ ''abc'') = Inr [] \<and>
   extract_from_rex (''rex f=x |'' @ [DQ] @ ''a'' @ [DQ]) = Inr []"
proof -
  let ?a = "''rex '' @ [DQ] @ ''foo(bar)'' @ [DQ]"
  let ?b = "''rex '' @ [DQ] @ ''abc''"
  let ?c = "''rex f=x |'' @ [DQ] @ ''a'' @ [DQ]"
  have oa: "rex_occurrences ?a = [(1, ''rex'', 0, 3)]" by code_simp
  have ob: "rex_occurrences ?b = [(1, ''rex'', 0, 3)]" by code_simp
  have oc: "rex_occurrences ?c = [(1, ''rex'', 0, 3)]" by code_simp
  have sa: "rex_stop ?a 3 = 4" "scan_quoted ?a 4 = Inr (Some (14, ''foo(bar)''))"
    "\<not> length ?a \<le> 4" "?a ! 4 \<noteq> PIPE"
    by code_simp+
  have sb: "scan_quoted ?b (rex_stop ?b 3) = Inr None" by code_simp
  have sc: "?c ! rex_stop ?c 3 = PIPE" by code_simp
  have 1: "extract_from_rex ?a =
     Inr [\<lparr>item_cmd = ''rex'', item_cmd_index_on_line = 1, item_field = [],
           item_pattern = ''foo(bar)'', item_pattern_index_in_cmd = 1\<rparr>]"
  proof -
    from rex_occurrence_records [of ?a] obtain per where
      e: "extract_from_rex ?a = Inr (concat per)" and
      l: "length per = length (rex_occurrences ?a)" and
      d: "\<forall>k < length (rex_occurrences ?a).
        (\<not> (length ?a \<le> rex_stop ?a (snd (snd (snd (rex_occurrences ?a ! k)))) \<or>
            ?a ! rex_stop ?a (snd (snd (snd (rex_occurrences ?a ! k)))) = PIPE \<or>
            scan_quoted ?a (rex_stop ?a (snd (snd (snd (rex_occurrences ?a ! k))))) = Inr None)
           \<longrightarrow> (\<exists>end content.
                  scan_quoted ?a (rex_stop ?a (snd (snd (snd (rex_occurrences ?a ! k)))))
                    = Inr (Some (end, content)) \<and>
                  per ! k =
                    [\<lparr>item_cmd = ''rex'',
                      item_cmd_index_on_line = fst (rex_occurrences ?a ! k),
                      item_field = [], item_pattern = content,
                      item_pattern_index_in_cmd = 1\<rparr>]))"
      by blast
    from l obtain p0 where per: "per = [p0]" unfolding oa by (auto simp: length_Suc_conv)
    from d [rule_format, of 0] have "p0 =
        [\<lparr>item_cmd = ''rex'', item_cmd_index_on_line = 1, item_field = [],
          item_pattern = ''foo(bar)'', item_pattern_index_in_cmd = 1\<rparr>]"
      unfolding oa per using sa by simp
    with e per show ?thesis by simp
  qed
  have 2: "extract_from_rex ?b = Inr []"
  proof -
    from rex_occurrence_records [of ?b] obtain per where
      e: "extract_from_rex ?b = Inr (concat per)" and
      l: "length per = length (rex_occurrences ?b)" and
      d: "\<forall>k < length (rex_occurrences ?b).
        (length ?b \<le> rex_stop ?b (snd (snd (snd (rex_occurrences ?b ! k)))) \<or>
         ?b ! rex_stop ?b (snd (snd (snd (rex_occurrences ?b ! k)))) = PIPE \<or>
         scan_quoted ?b (rex_stop ?b (snd (snd (snd (rex_occurrences ?b ! k))))) = Inr None
           \<longrightarrow> per ! k = [])"
      by blast
    from l obtain p0 where per: "per = [p0]" unfolding ob by (auto simp: length_Suc_conv)
    from d [rule_format, of 0] have "p0 = []" unfolding ob per using sb by simp
    with e per show ?thesis by simp
  qed
  have 3: "extract_from_rex ?c = Inr []"
  proof -
    from rex_occurrence_records [of ?c] obtain per where
      e: "extract_from_rex ?c = Inr (concat per)" and
      l: "length per = length (rex_occurrences ?c)" and
      d: "\<forall>k < length (rex_occurrences ?c).
        (length ?c \<le> rex_stop ?c (snd (snd (snd (rex_occurrences ?c ! k)))) \<or>
         ?c ! rex_stop ?c (snd (snd (snd (rex_occurrences ?c ! k)))) = PIPE \<or>
         scan_quoted ?c (rex_stop ?c (snd (snd (snd (rex_occurrences ?c ! k))))) = Inr None
           \<longrightarrow> per ! k = [])"
      by blast
    from l obtain p0 where per: "per = [p0]" unfolding oc by (auto simp: length_Suc_conv)
    from d [rule_format, of 0] have "p0 = []" unfolding oc per using sc by simp
    with e per show ?thesis by simp
  qed
  from 1 2 3 show ?thesis by blast
qed

text \<open>
  Claim C6 fails on the code: on the line \<^verbatim>\<open>rex "a" | regex "b"\<close> the tokenizer finds
  rex as the first and regex as the second command, the rex extractor numbers its item 1,
  and the regex extractor numbers its item 1 as well, since it counts regex commands
  only. The rex extractor does count every command: on \<^verbatim>\<open>regex "b" | rex "a"\<close> it
  numbers its item 2.
\<close>

theorem command_index_numbering_diverges:
  "iter_command_tokens (''rex '' @ [DQ] @ ''a'' @ [DQ] @ '' | regex '' @ [DQ] @ ''b'' @ [DQ]) =
     [(''rex'', 0, 3), (''regex'', 10, 15)] \<and>
   extract_from_rex (''rex '' @ [DQ] @ ''a'' @ [DQ] @ '' | regex '' @ [DQ] @ ''b'' @ [DQ]) =
     Inr [\<lparr>item_cmd = ''rex'', item_cmd_index_on_line = 1, item_field = [],
           item_pattern = ''a'', item_pattern_index_in_cmd = 1\<rparr>] \<and>
   extract_from_regex (''rex '' @ [DQ] @ ''a'' @ [DQ] @ '' | regex '' @ [DQ] @ ''b'' @ [DQ]) =
     Inr [\<lparr>item_cmd = ''regex'', item_cmd_index_on_line = 1, item_field = [],
           item_pattern = ''b'', item_pattern_index_in_cmd = 1\<rparr>] \<and>
   extract_from_rex (''regex '' @ [DQ] @ ''b'' @ [DQ] @ '' | rex '' @ [DQ] @ ''a'' @ [DQ]) =
     Inr [\<lparr>item_cmd = ''rex'', item_cmd_index_on_line = 2, item_field = [],
           item_pattern = ''a'', item_pattern_index_in_cmd = 1\<rparr>]"
  by code_simp


text \<open>The regex extractor never raises, and its command body ends at the first \<^verbatim>\<open>|\<close>.\<close>

lemma find_all_quoted_from_Inr: "\<exists>quotes. find_all_quoted_from s i out = Inr quotes"
proof (induction s i out rule: find_all_quoted_from.induct)
  case (1 s i out)
  show ?case
  proof (cases "i < length s")
    case False
    then show ?thesis by (subst find_all_quoted_from.simps) simp
  next
    case True
    show ?thesis
    proof (cases "s ! i = SQ \<or> s ! i = DQ")
      case False
      with True have "find_all_quoted_from s i out = find_all_quoted_from s (i + 1) out"
        by (subst find_all_quoted_from.simps) simp
      with "1.IH"(3) True False show ?thesis by simp
    next
      case q: True
      from scan_quoted_span [of s i] show ?thesis
      proof
        assume n: "scan_quoted s i = Inr None"
        with True q have "find_all_quoted_from s i out = find_all_quoted_from s (i + 1) out"
          by (subst find_all_quoted_from.simps) simp
        with "1.IH"(1) [OF True q n] show ?thesis by simp
      next
        assume "\<exists>e c. scan_quoted s i = Inr (Some (e, c)) \<and> i < e \<and> e \<le> length s"
        then obtain e c where sc: "scan_quoted s i = Inr (Some (e, c))" by blast
        with True q
        have "find_all_quoted_from s i out = find_all_quoted_from s e (out @ [(i, e, c)])"
          by (subst find_all_quoted_from.simps) simp
        with "1.IH"(2) [OF True q sc refl refl] show ?thesis by simp
      qed
    qed
  qed
qed

lemma find_all_quoted_Inr: "\<exists>quotes. find_all_quoted s = Inr quotes"
  using find_all_quoted_from_Inr [of s 0 "[]"] by (simp add: find_all_quoted_def)

lemma regex_occurrence_Inr: "\<exists>items. regex_occurrence line cmd_index e = Inr items"
proof -
  from find_all_quoted_Inr obtain quotes where
    "find_all_quoted (case find_from line PIPE e of Some end \<Rightarrow> slice line e end
        | None \<Rightarrow> drop e line) = Inr quotes"
    by blast
  then show ?thesis by (simp add: regex_occurrence_def Let_def)
qed

lemma regex_loop_Inr: "\<exists>items. regex_loop line pos cmd_index out = Inr items"
proof (induction line pos cmd_index out rule: regex_loop.induct)
  case (1 line pos cmd_index out)
  show ?case
  proof (cases "search_regex_kw (drop pos line)")
    case None
    then show ?thesis by (subst regex_loop.simps) simp
  next
    case (Some m)
    obtain ms me where m: "m = (ms, me)" by (cases m) auto
    from regex_occurrence_Inr obtain items where
      i: "regex_occurrence line (cmd_index + 1) (pos + me) = Inr items" by blast
    from Some m i have "regex_loop line pos cmd_index out =
        regex_loop line (pos + me) (cmd_index + 1) (out @ items)"
      by (subst regex_loop.simps) simp
    moreover from "1.IH" [OF Some [unfolded m] refl i]
    have "\<exists>r. regex_loop line (pos + me) (cmd_index + 1) (out @ items) = Inr r" .
    ultimately show ?thesis by simp
  qed
qed

lemma extract_from_regex_Inr: "\<exists>items. extract_from_regex line = Inr items"
  using regex_loop_Inr by (simp add: extract_from_regex_def)

lemma extract_from_rex_Inr: "\<exists>items. extract_from_rex line = Inr items"
  using rex_loop_per_occurrence [of line "enumerate 1 (iter_command_tokens line)" "[]"]
  by (auto simp: extract_from_rex_def)




section \<open>Properties of detection and classification together\<close>

text \<open>
  Claim C5. For every pattern whose detected features are exactly one of the angle-bracket
  named capture, lookahead, lookbehind and possessive quantifier, the classification for
  Lucene is incompatible and lists that feature, and the classification for Java is not
  incompatible. The line \<^verbatim>\<open>rex ""a(?<x>b)""\<close> yields the pattern \<^verbatim>\<open>a(?<x>b)\<close>, whose
  only detected feature is the angle-bracket named capture, with exactly this asymmetry.
\<close>

theorem lookaround_asymmetry:
  "(f \<in> {''named_capture_angle'', ''lookahead'', ''lookbehind'', ''possessive_quantifier''} \<and>
      set (detect_features p) = {f} \<longrightarrow>
      (\<exists>bad. incompatible_for ''lucene'' (detect_features p) = Inr (True, bad) \<and> f \<in> set bad) \<and>
      incompatible_for ''java'' (detect_features p) = Inr (False, [])) \<and>
   extract_from_rex (''rex '' @ [DQ, DQ] @ ''a(?<x>b)'' @ [DQ, DQ]) =
     Inr [\<lparr>item_cmd = ''rex'', item_cmd_index_on_line = 1, item_field = [],
           item_pattern = ''a(?<x>b)'', item_pattern_index_in_cmd = 1\<rparr>] \<and>
   detect_features ''a(?<x>b)'' = [''named_capture_angle''] \<and>
   incompatible_for ''lucene'' (detect_features ''a(?<x>b)'') = Inr (True, [''named_capture_angle'']) \<and>
   incompatible_for ''java'' (detect_features ''a(?<x>b)'') = Inr (False, [])"
proof (intro conjI impI)
  assume h: "f \<in> {''named_capture_angle'', ''lookahead'', ''lookbehind'', ''possessive_quantifier''} \<and>
      set (detect_features p) = {f}"
  let ?fs = "detect_features p"
  from h have fl: "f \<in> LUCENE_INCOMPATIBLE" unfolding LUCENE_INCOMPATIBLE_def by auto
  from h have fj: "f \<notin> JAVA_INCOMPATIBLE" unfolding JAVA_INCOMPATIBLE_def by auto
  from h fl have "set (sort (filter (\<lambda>f. f \<in> LUCENE_INCOMPATIBLE) ?fs)) = {f}" by auto
  then have m: "f \<in> set (sort (filter (\<lambda>f. f \<in> LUCENE_INCOMPATIBLE) ?fs))"
    and ne: "0 < length (sort (filter (\<lambda>f. f \<in> LUCENE_INCOMPATIBLE) ?fs))"
    by (simp, cases "sort (filter (\<lambda>f. f \<in> LUCENE_INCOMPATIBLE) ?fs)", simp_all)
  from ne m incompatible_for_lucene [of ?fs]
  show "\<exists>bad. incompatible_for ''lucene'' ?fs = Inr (True, bad) \<and> f \<in> set bad" by simp
  from h fj have "filter (\<lambda>f. f \<in> JAVA_INCOMPATIBLE) ?fs = []"
    by (auto simp: filter_empty_conv)
  with incompatible_for_java [of ?fs]
  show "incompatible_for ''java'' ?fs = Inr (False, [])" by simp
next
  show "extract_from_rex (''rex '' @ [DQ, DQ] @ ''a(?<x>b)'' @ [DQ, DQ]) =
     Inr [\<lparr>item_cmd = ''rex'', item_cmd_index_on_line = 1, item_field = [],
           item_pattern = ''a(?<x>b)'', item_pattern_index_in_cmd = 1\<rparr>]"
    by code_simp
next
  show "detect_features ''a(?<x>b)'' = [''named_capture_angle'']" by code_simp
next
  show "incompatible_for ''lucene'' (detect_features ''a(?<x>b)'') = Inr (True, [''named_capture_angle''])"
    by code_simp
next
  show "incompatible_for ''java'' (detect_features ''a(?<x>b)'') = Inr (False, [])"
    by code_simp
qed

theorem lookaround_asymmetry_witness:
  "set (detect_features ''(?<=a)b'') = {''lookbehind''} \<and>
   (\<exists>bad. incompatible_for ''lucene'' (detect_features ''(?<=a)b'') = Inr (True, bad) \<and>
      ''lookbehind'' \<in> set bad) \<and>
   incompatible_for ''java'' (detect_features ''(?<=a)b'') = Inr (False, [])"
proof -
  have "detect_features ''(?<=a)b'' = [''lookbehind'']" by code_simp
  then have s: "set (detect_features ''(?<=a)b'') = {''lookbehind''}" by simp
  with lookaround_asymmetry [of "''lookbehind''" "''(?<=a)b''"] show ?thesis by simp
qed

section \<open>Properties of the analysis\<close>

text \<open>
  Each step of the analysis returns without raising, appends the rows of its items, and
  adds to each engine's counters what the new rows call for.
\<close>

lemma dict_set_total:
  "feature_total (dict_set d k (dict_get d k 0 + 1)) = feature_total d + 1"
proof (induction d)
  case Nil
  show ?case by (simp add: feature_total_def dict_get_def)
next
  case (Cons kv d)
  obtain k' v' where kv: "kv = (k', v')" by (cases kv) auto
  show ?case
  proof (cases "k' = k")
    case True
    with kv show ?thesis by (simp add: feature_total_def dict_get_def)
  next
    case False
    then have "dict_get (kv # d) k 0 = dict_get d k 0" using kv by (simp add: dict_get_def)
    with False kv Cons.IH show ?thesis by (simp add: feature_total_def)
  qed
qed

lemma count_features_total:
  "feature_total (count_features d feats) = feature_total d + length feats"
proof -
  have step: "\<And>d k. feature_total (dict_set d k (Suc (dict_get d k 0))) = Suc (feature_total d)"
    using dict_set_total by simp
  show ?thesis
    unfolding count_features_def
    by (induction feats arbitrary: d) (simp_all add: step)
qed

lemma grows_by_none: "grows_by st [] st"
  by (simp add: grows_by_def)

lemma grows_by_then:
  "grows_by a n1 b \<Longrightarrow> grows_by b n2 c \<Longrightarrow> grows_by a (n1 @ n2) c"
  by (simp add: grows_by_def)

lemma analyze_item_step:
  "\<exists>r st'. analyze_item i line st item = Inr st' \<and> grows_by st [r] st' \<and> row_of i line r item"
proof -
  let ?feats = "detect_features (item_pattern item)"
  let ?jf = "sort (filter (\<lambda>f. f \<in> JAVA_INCOMPATIBLE) ?feats)"
  let ?lf = "sort (filter (\<lambda>f. f \<in> LUCENE_INCOMPATIBLE) ?feats)"
  let ?r = "\<lparr>line_number = i,
             command = item_cmd item,
             cmd_index_on_line = item_cmd_index_on_line item,
             pattern_index_in_cmd = item_pattern_index_in_cmd item,
             row_field = item_field item,
             row_pattern = item_pattern item,
             features_detected = join '','' ?feats,
             java_incompatible = (0 < length ?jf),
             java_incompat_features = join '','' ?jf,
             lucene_incompatible = (0 < length ?lf),
             lucene_incompat_features = join '','' ?lf,
             row_line = line\<rparr>"
  let ?t0 = "(snd st)\<lparr>total_patterns := total_patterns (snd st) + 1\<rparr>"
  let ?t1 = "if 0 < length ?jf then
               ?t0\<lparr>java_incompatible_patterns := java_incompatible_patterns ?t0 + 1,
                    java_feature_counts := count_features (java_feature_counts ?t0) ?jf\<rparr>
             else ?t0"
  let ?t2 = "if 0 < length ?lf then
               ?t1\<lparr>lucene_incompatible_patterns := lucene_incompatible_patterns ?t1 + 1,
                    lucene_feature_counts := count_features (lucene_feature_counts ?t1) ?lf\<rparr>
             else ?t1"
  have res: "analyze_item i line st item = Inr (fst st @ [?r], ?t2)"
    unfolding analyze_item_def incompatible_for_java incompatible_for_lucene Let_def
    by (simp only: sum.case prod.case)
  have oj: "offending JAVA_INCOMPATIBLE ?r = ?jf" and ol: "offending LUCENE_INCOMPATIBLE ?r = ?lf"
    by (simp_all add: offending_def)
  have row: "row_of i line ?r item"
    unfolding row_of_def oj ol by (simp add: sort_eq_Nil)
  have g: "grows_by st [?r] (fst st @ [?r], ?t2)"
    by (cases "?jf = []"; cases "?lf = []")
      (simp_all add: grows_by_def offending_def count_features_total sort_eq_Nil)
  from res g row show ?thesis by blast
qed

lemma analyze_items_step:
  "\<exists>new st'. analyze_items i line st items = Inr st' \<and> grows_by st new st' \<and>
     list_all2 (row_of i line) new items"
proof (induction items arbitrary: st)
  case Nil
  show ?case using grows_by_none by (intro exI [of _ "[]"]) simp
next
  case (Cons item items)
  from analyze_item_step obtain r st1 where
    a: "analyze_item i line st item = Inr st1" "grows_by st [r] st1" "row_of i line r item"
    by blast
  from Cons.IH [of st1] obtain new st2 where
    b: "analyze_items i line st1 items = Inr st2" "grows_by st1 new st2"
       "list_all2 (row_of i line) new items"
    by blast
  from a(2) b(2) have "grows_by st ([r] @ new) st2" by (rule grows_by_then)
  with a b show ?case by (intro exI [of _ "r # new"] exI [of _ st2]) simp
qed

lemma analyze_line_step:
  "\<exists>new st'. analyze_line i raw st = Inr st' \<and> grows_by st new st' \<and> line_rows i raw new"
proof (cases "strip (rstrip_newline raw) = []")
  case True
  then have "analyze_line i raw st = Inr st" by (simp add: analyze_line_def)
  with True grows_by_none show ?thesis
    by (intro exI [of _ "[]"] exI [of _ st]) (simp add: line_rows_def)
next
  case False
  let ?line = "rstrip_newline raw"
  from extract_from_rex_Inr obtain rex_items where x: "extract_from_rex ?line = Inr rex_items"
    by blast
  from extract_from_regex_Inr obtain regex_items where
    y: "extract_from_regex ?line = Inr regex_items" by blast
  let ?t0 = "(snd st)\<lparr>lines := lines (snd st) + 1\<rparr>"
  let ?t1 = "if rex_items \<noteq> [] then
      ?t0\<lparr>rex_commands := rex_commands ?t0 +
        length (remdups (map item_cmd_index_on_line rex_items))\<rparr> else ?t0"
  let ?t2 = "if regex_items \<noteq> [] then
      ?t1\<lparr>regex_commands := regex_commands ?t1 +
        length (remdups (map item_cmd_index_on_line regex_items))\<rparr> else ?t1"
  from False x y have eq: "analyze_line i raw st =
      analyze_items i ?line (fst st, ?t2) (rex_items @ regex_items)"
    by (simp add: analyze_line_def Let_def)
  have g0: "grows_by st [] (fst st, ?t2)" by (simp add: grows_by_def)
  from analyze_items_step [of i ?line "(fst st, ?t2)" "rex_items @ regex_items"]
  obtain new st' where
    n: "analyze_items i ?line (fst st, ?t2) (rex_items @ regex_items) = Inr st'"
       "grows_by (fst st, ?t2) new st'"
       "list_all2 (row_of i ?line) new (rex_items @ regex_items)"
    by blast
  from g0 n(2) have "grows_by st ([] @ new) st'" by (rule grows_by_then)
  moreover from False x y n(3) have "line_rows i raw new"
    by (auto simp: line_rows_def)
  ultimately show ?thesis using eq n(1) by auto
qed

lemma analyze_lines_step:
  "\<exists>per st'. analyze_lines numbered st = Inr st' \<and> grows_by st (concat per) st' \<and>
     list_all2 (\<lambda>new nr. line_rows (fst nr) (snd nr) new) per numbered"
proof (induction numbered arbitrary: st)
  case Nil
  show ?case using grows_by_none by (intro exI [of _ "[]"]) simp
next
  case (Cons nr numbered)
  obtain i raw where nr: "nr = (i, raw)" by (cases nr) auto
  from analyze_line_step obtain new st1 where
    a: "analyze_line i raw st = Inr st1" "grows_by st new st1" "line_rows i raw new"
    by blast
  from Cons.IH [of st1] obtain per st2 where
    b: "analyze_lines numbered st1 = Inr st2" "grows_by st1 (concat per) st2"
       "list_all2 (\<lambda>new nr. line_rows (fst nr) (snd nr) new) per numbered"
    by blast
  from a(2) b(2) have "grows_by st (new @ concat per) st2" by (rule grows_by_then)
  with a b nr show ?case by (intro exI [of _ "new # per"] exI [of _ st2]) simp
qed

lemma analyze_file_rows:
  "\<exists>per tot. analyze_file file_lines = Inr (concat per, tot) \<and>
     grows_by ([], initial_totals) (concat per) (concat per, tot) \<and>
     length per = length file_lines \<and>
     (\<forall>k < length file_lines. line_rows (k + 1) (file_lines ! k) (per ! k))"
proof -
  from analyze_lines_step [of "enumerate 1 file_lines" "([], initial_totals)"]
  obtain per st' where
    a: "analyze_lines (enumerate 1 file_lines) ([], initial_totals) = Inr st'"
       "grows_by ([], initial_totals) (concat per) st'"
       "list_all2 (\<lambda>new nr. line_rows (fst nr) (snd nr) new) per (enumerate 1 file_lines)"
    by blast
  from a(2) have f: "fst st' = concat per" by (simp add: grows_by_def)
  then have st: "st' = (concat per, snd st')" by (cases st') simp
  from a(3) have len: "length per = length file_lines"
    by (auto dest: list_all2_lengthD)
  have "\<forall>k < length file_lines. line_rows (k + 1) (file_lines ! k) (per ! k)"
  proof (intro allI impI)
    fix k assume k: "k < length file_lines"
    with a(3) len
    have "line_rows (fst (enumerate 1 file_lines ! k)) (snd (enumerate 1 file_lines ! k)) (per ! k)"
      by (auto simp: list_all2_conv_all_nth)
    with k show "line_rows (k + 1) (file_lines ! k) (per ! k)"
      by (simp add: nth_enumerate_eq)
  qed
  with a(1,2) st len show ?thesis
    by (intro exI [of _ per] exI [of _ "snd st'"]) (simp add: analyze_file_def)
qed

lemma count_le_total:
  assumes "\<forall>r\<in>set rows. P r = (0 < f r)"
  shows "length (filter P rows) \<le> sum_list (map f rows) \<and>
         (sum_list (map f rows) = length (filter P rows) \<longleftrightarrow> (\<forall>r\<in>set rows. P r \<longrightarrow> f r = 1))"
  using assms
proof (induction rows)
  case Nil
  show ?case by simp
next
  case (Cons r rows)
  then have ih: "length (filter P rows) \<le> sum_list (map f rows)"
    "sum_list (map f rows) = length (filter P rows) \<longleftrightarrow> (\<forall>r\<in>set rows. P r \<longrightarrow> f r = 1)"
    by simp_all
  from Cons.prems have p: "P r = (0 < f r)" by simp
  show ?case
  proof (cases "P r")
    case False
    with p ih show ?thesis by simp
  next
    case True
    with p have pos: "0 < f r" by simp
    from True ih(1) pos have le: "length (filter P (r # rows)) \<le> sum_list (map f (r # rows))"
      by simp
    have "sum_list (map f (r # rows)) = length (filter P (r # rows)) \<longleftrightarrow>
        (f r = 1 \<and> sum_list (map f rows) = length (filter P rows))"
      using True ih(1) pos by auto
    with ih(2) True le show ?thesis by auto
  qed
qed

lemma line_rows_flags:
  assumes "line_rows i raw new" "r \<in> set new"
  shows "line_number r = i \<and> row_line r = rstrip_newline raw \<and>
         java_incompatible r = (offending JAVA_INCOMPATIBLE r \<noteq> []) \<and>
         lucene_incompatible r = (offending LUCENE_INCOMPATIBLE r \<noteq> [])"
proof (cases "strip (rstrip_newline raw) = []")
  case True
  with assms show ?thesis by (simp add: line_rows_def)
next
  case False
  with assms(1) obtain items where "list_all2 (row_of i (rstrip_newline raw)) new items"
    by (auto simp: line_rows_def)
  with assms(2) obtain item where "row_of i (rstrip_newline raw) r item"
    by (auto simp: list_all2_conv_all_nth in_set_conv_nth)
  then show ?thesis by (simp add: row_of_def)
qed

lemma one_offending_java:
  "(length (offending JAVA_INCOMPATIBLE r) = 1) =
   (\<exists>f. incompatible_for ''java'' (detect_features (row_pattern r)) = Inr (True, [f]))"
proof -
  let ?o = "offending JAVA_INCOMPATIBLE r"
  have "incompatible_for ''java'' (detect_features (row_pattern r)) = Inr (0 < length ?o, ?o)"
    unfolding offending_def by (rule incompatible_for_java)
  moreover have "(length ?o = 1) = (\<exists>f. ?o = [f])"
    by (cases ?o) auto
  ultimately show ?thesis by auto
qed

lemma one_offending_lucene:
  "(length (offending LUCENE_INCOMPATIBLE r) = 1) =
   (\<exists>f. incompatible_for ''lucene'' (detect_features (row_pattern r)) = Inr (True, [f]))"
proof -
  let ?o = "offending LUCENE_INCOMPATIBLE r"
  have "incompatible_for ''lucene'' (detect_features (row_pattern r)) = Inr (0 < length ?o, ?o)"
    unfolding offending_def by (rule incompatible_for_lucene)
  moreover have "(length ?o = 1) = (\<exists>f. ?o = [f])"
    by (cases ?o) auto
  ultimately show ?thesis by auto
qed

lemma row_of_patterns:
  "list_all2 (row_of i line) new items \<Longrightarrow> map row_pattern new = map item_pattern items"
  by (induction new items rule: list_all2_induct) (simp_all add: row_of_def)

lemma line_rows_patterns:
  assumes "line_rows i raw new"
  shows "(strip (rstrip_newline raw) = [] \<longrightarrow> new = []) \<and>
         (strip (rstrip_newline raw) \<noteq> [] \<longrightarrow>
            (\<exists>rex_items regex_items.
               extract_from_rex (rstrip_newline raw) = Inr rex_items \<and>
               extract_from_regex (rstrip_newline raw) = Inr regex_items \<and>
               map row_pattern new = map item_pattern (rex_items @ regex_items)))"
proof (cases "strip (rstrip_newline raw) = []")
  case True
  with assms show ?thesis by (simp add: line_rows_def)
next
  case False
  with assms obtain rex_items regex_items where
    x: "extract_from_rex (rstrip_newline raw) = Inr rex_items"
       "extract_from_regex (rstrip_newline raw) = Inr regex_items"
       "list_all2 (row_of i (rstrip_newline raw)) new (rex_items @ regex_items)"
    by (auto simp: line_rows_def)
  from x(3) have "map row_pattern new = map item_pattern (rex_items @ regex_items)"
    by (rule row_of_patterns)
  with x False show ?thesis by blast
qed

lemma analyze_file_Inr: "\<exists>rows tot. analyze_file file_lines = Inr (rows, tot)"
  using analyze_file_rows [of file_lines] by blast

text \<open>
  Claim C7, as stated, fails: in a file whose first line is empty and whose second line is
  \<^verbatim>\<open>rex "a"\<close>, the pattern is on the first non-empty line (the totals count one line)
  and its row carries line number 2.
\<close>

theorem line_number_counterexample:
  "analyze_file [[NL], ''rex '' @ [DQ] @ ''a'' @ [DQ, NL]] =
     Inr ([\<lparr>line_number = 2, command = ''rex'', cmd_index_on_line = 1,
             pattern_index_in_cmd = 1, row_field = [], row_pattern = ''a'',
             features_detected = [], java_incompatible = False,
             java_incompat_features = [], lucene_incompatible = False,
             lucene_incompat_features = [],
             row_line = ''rex '' @ [DQ] @ ''a'' @ [DQ]\<rparr>],
          \<lparr>lines = 1, rex_commands = 1, regex_commands = 0,
            total_patterns = 1, java_incompatible_patterns = 0,
            lucene_incompatible_patterns = 0, java_feature_counts = [],
            lucene_feature_counts = []\<rparr>)"
  by code_simp

text \<open>
  Claim C7, amended. The line number of a row is 1-based and counted over all lines of
  the file, empty ones included: the rows are the concatenation of one list per line of
  the file, every row of the list of the \<open>k\<close>-th line (from 0) carries line number
  \<open>k + 1\<close> and that line's text; the list of a blank line is empty, and the list of any
  other line carries the patterns extracted from it.
\<close>

theorem line_number_counts_all_lines:
  "\<exists>rows tot per. analyze_file file_lines = Inr (rows, tot) \<and>
     rows = concat per \<and> length per = length file_lines \<and>
     (\<forall>k < length file_lines.
        (\<forall>r\<in>set (per ! k).
           line_number r = k + 1 \<and> row_line r = rstrip_newline (file_lines ! k)) \<and>
        (strip (rstrip_newline (file_lines ! k)) = [] \<longrightarrow> per ! k = []) \<and>
        (strip (rstrip_newline (file_lines ! k)) \<noteq> [] \<longrightarrow>
           (\<exists>rex_items regex_items.
              extract_from_rex (rstrip_newline (file_lines ! k)) = Inr rex_items \<and>
              extract_from_regex (rstrip_newline (file_lines ! k)) = Inr regex_items \<and>
              map row_pattern (per ! k) = map item_pattern (rex_items @ regex_items))))"
proof -
  from analyze_file_rows [of file_lines] obtain per tot where
    a: "analyze_file file_lines = Inr (concat per, tot)"
       "length per = length file_lines"
       "\<forall>k < length file_lines. line_rows (k + 1) (file_lines ! k) (per ! k)"
    by blast
  have "\<forall>k < length file_lines.
        (\<forall>r\<in>set (per ! k).
           line_number r = k + 1 \<and> row_line r = rstrip_newline (file_lines ! k)) \<and>
        (strip (rstrip_newline (file_lines ! k)) = [] \<longrightarrow> per ! k = []) \<and>
        (strip (rstrip_newline (file_lines ! k)) \<noteq> [] \<longrightarrow>
           (\<exists>rex_items regex_items.
              extract_from_rex (rstrip_newline (file_lines ! k)) = Inr rex_items \<and>
              extract_from_regex (rstrip_newline (file_lines ! k)) = Inr regex_items \<and>
              map row_pattern (per ! k) = map item_pattern (rex_items @ regex_items)))"
  proof (intro allI impI)
    fix k assume "k < length file_lines"
    with a(3) have lr: "line_rows (k + 1) (file_lines ! k) (per ! k)" by simp
    from line_rows_flags [OF lr] line_rows_patterns [OF lr]
    show "(\<forall>r\<in>set (per ! k).
           line_number r = k + 1 \<and> row_line r = rstrip_newline (file_lines ! k)) \<and>
        (strip (rstrip_newline (file_lines ! k)) = [] \<longrightarrow> per ! k = []) \<and>
        (strip (rstrip_newline (file_lines ! k)) \<noteq> [] \<longrightarrow>
           (\<exists>rex_items regex_items.
              extract_from_rex (rstrip_newline (file_lines ! k)) = Inr rex_items \<and>
              extract_from_regex (rstrip_newline (file_lines ! k)) = Inr regex_items \<and>
              map row_pattern (per ! k) = map item_pattern (rex_items @ regex_items)))"
      by blast
  qed
  with a(1,2) show ?thesis by blast
qed

theorem line_number_counts_all_lines_witness:
  "\<exists>rows tot. analyze_file [[NL], ''rex '' @ [DQ] @ ''a'' @ [DQ, NL]] = Inr (rows, tot) \<and>
     rows \<noteq> [] \<and> list_all (\<lambda>r. line_number r = 2) rows"
proof -
  let ?F = "[[NL], ''rex '' @ [DQ] @ ''a'' @ [DQ, NL]]"
  from line_number_counts_all_lines [of ?F] obtain rows tot per where
    a: "analyze_file ?F = Inr (rows, tot)" and
    b: "rows = concat per" and
    c: "length per = length ?F" and
    d: "\<forall>k < length ?F.
        (\<forall>r\<in>set (per ! k).
           line_number r = k + 1 \<and> row_line r = rstrip_newline (?F ! k)) \<and>
        (strip (rstrip_newline (?F ! k)) = [] \<longrightarrow> per ! k = [])"
    by blast
  from c obtain p0 p1 where per: "per = [p0, p1]"
    by (auto simp: length_Suc_conv)
  have blank: "strip (rstrip_newline [NL]) = []" by code_simp
  from d [rule_format, of 0] per blank have p0: "p0 = []" by simp
  from d [rule_format, of 1] per have p1: "\<forall>r\<in>set p1. line_number r = 2" by simp
  from b per p0 have rows: "rows = p1" by simp
  have "map_sum id (\<lambda>st. length (fst st)) (analyze_file ?F) = Inr 1" by code_simp
  with a have "rows \<noteq> []" by auto
  with a rows p1 show ?thesis by (auto simp: list_all_iff)
qed

text \<open>
  Claim C9. For every file the analysis returns, and for each engine: the count of
  incompatible patterns is the number of rows flagged incompatible, it is at most the sum
  of the engine's per-feature counts, and the two are equal exactly when every row flagged
  incompatible has exactly one offending feature.
\<close>

theorem feature_counts_bound:
  "\<exists>rows tot. analyze_file file_lines = Inr (rows, tot) \<and>
     java_incompatible_patterns tot = length (filter java_incompatible rows) \<and>
     java_incompatible_patterns tot \<le> sum_list (map snd (java_feature_counts tot)) \<and>
     (sum_list (map snd (java_feature_counts tot)) = java_incompatible_patterns tot \<longleftrightarrow>
        (\<forall>r\<in>set rows. java_incompatible r \<longrightarrow>
           (\<exists>f. incompatible_for ''java'' (detect_features (row_pattern r)) = Inr (True, [f])))) \<and>
     lucene_incompatible_patterns tot = length (filter lucene_incompatible rows) \<and>
     lucene_incompatible_patterns tot \<le> sum_list (map snd (lucene_feature_counts tot)) \<and>
     (sum_list (map snd (lucene_feature_counts tot)) = lucene_incompatible_patterns tot \<longleftrightarrow>
        (\<forall>r\<in>set rows. lucene_incompatible r \<longrightarrow>
           (\<exists>f. incompatible_for ''lucene'' (detect_features (row_pattern r)) = Inr (True, [f]))))"
proof -
  from analyze_file_rows [of file_lines] obtain per tot where
    a: "analyze_file file_lines = Inr (concat per, tot)"
       "grows_by ([], initial_totals) (concat per) (concat per, tot)"
       "length per = length file_lines"
       "\<forall>k < length file_lines. line_rows (k + 1) (file_lines ! k) (per ! k)"
    by blast
  let ?rows = "concat per"
  have flags: "java_incompatible r = (0 < length (offending JAVA_INCOMPATIBLE r)) \<and>
      lucene_incompatible r = (0 < length (offending LUCENE_INCOMPATIBLE r))"
    if "r \<in> set ?rows" for r
  proof -
    from that obtain xs where xs: "xs \<in> set per" "r \<in> set xs" by auto
    from xs(1) obtain k where "k < length per" "per ! k = xs"
      by (auto simp: in_set_conv_nth)
    with xs(2) have k: "k < length per" "r \<in> set (per ! k)" by simp_all
    with a(3,4) have "line_rows (k + 1) (file_lines ! k) (per ! k)" by simp
    from line_rows_flags [OF this k(2)] show ?thesis by simp
  qed
  from a(2) have
    jc: "java_incompatible_patterns tot = length (filter java_incompatible ?rows)" and
    js: "sum_list (map snd (java_feature_counts tot)) =
          sum_list (map (\<lambda>r. length (offending JAVA_INCOMPATIBLE r)) ?rows)" and
    lc: "lucene_incompatible_patterns tot = length (filter lucene_incompatible ?rows)" and
    ls: "sum_list (map snd (lucene_feature_counts tot)) =
          sum_list (map (\<lambda>r. length (offending LUCENE_INCOMPATIBLE r)) ?rows)"
    by (simp_all add: grows_by_def feature_total_def initial_totals_def)
  from flags have
    "\<forall>r\<in>set ?rows. java_incompatible r = (0 < length (offending JAVA_INCOMPATIBLE r))"
    by blast
  from count_le_total [OF this] have j:
    "java_incompatible_patterns tot \<le> sum_list (map snd (java_feature_counts tot))"
    "sum_list (map snd (java_feature_counts tot)) = java_incompatible_patterns tot \<longleftrightarrow>
       (\<forall>r\<in>set ?rows. java_incompatible r \<longrightarrow> length (offending JAVA_INCOMPATIBLE r) = 1)"
    unfolding jc js by blast+
  from flags have
    "\<forall>r\<in>set ?rows. lucene_incompatible r = (0 < length (offending LUCENE_INCOMPATIBLE r))"
    by blast
  from count_le_total [OF this] have l:
    "lucene_incompatible_patterns tot \<le> sum_list (map snd (lucene_feature_counts tot))"
    "sum_list (map snd (lucene_feature_counts tot)) = lucene_incompatible_patterns tot \<longleftrightarrow>
       (\<forall>r\<in>set ?rows. lucene_incompatible r \<longrightarrow> length (offending LUCENE_INCOMPATIBLE r) = 1)"
    unfolding lc ls by blast+
  show ?thesis
    apply (rule exI [of _ ?rows], rule exI [of _ tot])
    using a(1) jc lc j l unfolding one_offending_java one_offending_lucene
    by blast
qed

theorem feature_counts_bound_witness:
  "\<exists>rows tot. analyze_file [''rex '' @ [DQ] @ ''(?R)(*UTF)'' @ [DQ, NL], ''rex '' @ [DQ] @ ''a++'' @ [DQ]]
       = Inr (rows, tot) \<and>
     java_incompatible_patterns tot = 1 \<and>
     sum_list (map snd (java_feature_counts tot)) = 2 \<and>
     lucene_incompatible_patterns tot = 2 \<and>
     sum_list (map snd (lucene_feature_counts tot)) = 3 \<and>
     (\<exists>r\<in>set rows. java_incompatible r \<and>
        (\<forall>f. incompatible_for ''java'' (detect_features (row_pattern r)) \<noteq> Inr (True, [f])))"
proof -
  let ?F = "[''rex '' @ [DQ] @ ''(?R)(*UTF)'' @ [DQ, NL], ''rex '' @ [DQ] @ ''a++'' @ [DQ]]"
  from feature_counts_bound [of ?F] obtain rows tot where
    a: "analyze_file ?F = Inr (rows, tot)" and
    j: "sum_list (map snd (java_feature_counts tot)) = java_incompatible_patterns tot \<longleftrightarrow>
        (\<forall>r\<in>set rows. java_incompatible r \<longrightarrow>
           (\<exists>f. incompatible_for ''java'' (detect_features (row_pattern r)) = Inr (True, [f])))"
    by blast
  have e: "map_sum id (\<lambda>st. (java_incompatible_patterns (snd st),
                sum_list (map snd (java_feature_counts (snd st))),
                lucene_incompatible_patterns (snd st),
                sum_list (map snd (lucene_feature_counts (snd st))))) (analyze_file ?F)
           = Inr (1, 2, 2, 3)"
    by code_simp
  with a have v: "java_incompatible_patterns tot = 1"
    "sum_list (map snd (java_feature_counts tot)) = 2"
    "lucene_incompatible_patterns tot = 2"
    "sum_list (map snd (lucene_feature_counts tot)) = 3"
    by simp_all
  with j have "\<not> (\<forall>r\<in>set rows. java_incompatible r \<longrightarrow>
           (\<exists>f. incompatible_for ''java'' (detect_features (row_pattern r)) = Inr (True, [f])))"
    by simp
  then have "\<exists>r\<in>set rows. java_incompatible r \<and>
        (\<forall>f. incompatible_for ''java'' (detect_features (row_pattern r)) \<noteq> Inr (True, [f]))"
    by blast
  with a v show ?thesis by blast
qed

section \<open>Properties of the command line\<close>

text \<open>
  Claim C10. With an argument count other than one (\<^verbatim>\<open>sys.argv\<close> of a length other than
  2) the run exits with code 2, prints the usage message to the error stream and writes
  nothing; with one argument naming no file it exits with code 1 and writes nothing; with
  one argument naming a file it exits with code 0, having written the two reports.
\<close>

theorem main_exit_codes:
  "(length argv \<noteq> 2 \<longrightarrow>
      exit_code (main w argv) = 2 \<and> error_stream (main w argv) = [usage] \<and>
      written (main w argv) = []) \<and>
   (length argv = 2 \<and> file_at w (expanduser w (argv ! 1)) = None \<longrightarrow>
      exit_code (main w argv) = 1 \<and> written (main w argv) = []) \<and>
   (length argv = 2 \<and> file_at w (expanduser w (argv ! 1)) \<noteq> None \<longrightarrow>
      exit_code (main w argv) = 0 \<and>
      map fst (written (main w argv)) =
        [stem w (expanduser w (argv ! 1)) @ ''.portability_audit.csv'',
         stem w (expanduser w (argv ! 1)) @ ''.portability_audit.json''])"
proof -
  have a: "exit_code (main w argv) = 2 \<and> error_stream (main w argv) = [usage] \<and>
      written (main w argv) = []" if "length argv \<noteq> 2"
    using that by (simp add: main_def)
  have b: "exit_code (main w argv) = 1 \<and> written (main w argv) = []"
    if "length argv = 2 \<and> file_at w (expanduser w (argv ! 1)) = None"
    using that by (simp add: main_def)
  have c: "exit_code (main w argv) = 0 \<and>
      map fst (written (main w argv)) =
        [stem w (expanduser w (argv ! 1)) @ ''.portability_audit.csv'',
         stem w (expanduser w (argv ! 1)) @ ''.portability_audit.json'']"
    if h: "length argv = 2 \<and> file_at w (expanduser w (argv ! 1)) \<noteq> None"
  proof -
    from h obtain file_lines where f: "file_at w (expanduser w (argv ! 1)) = Some file_lines"
      by auto
    from analyze_file_Inr obtain rows tot where "analyze_file file_lines = Inr (rows, tot)"
      by blast
    with h f show ?thesis by (simp add: main_def write_reports_def Let_def)
  qed
  from a b c show ?thesis by blast
qed

theorem main_exit_codes_witness:
  "exit_code (main \<lparr>file_at = (\<lambda>p. if p = ''q.txt'' then Some [''rex '' @ [DQ] @ ''a'' @ [DQ, NL]] else None),
                    expanduser = (\<lambda>p. p), stem = (\<lambda>p. ''q'')\<rparr> [''audit.py'']) = 2 \<and>
   exit_code (main \<lparr>file_at = (\<lambda>p. if p = ''q.txt'' then Some [''rex '' @ [DQ] @ ''a'' @ [DQ, NL]] else None),
                    expanduser = (\<lambda>p. p), stem = (\<lambda>p. ''q'')\<rparr> [''audit.py'', ''none.txt'']) = 1 \<and>
   exit_code (main \<lparr>file_at = (\<lambda>p. if p = ''q.txt'' then Some [''rex '' @ [DQ] @ ''a'' @ [DQ, NL]] else None),
                    expanduser = (\<lambda>p. p), stem = (\<lambda>p. ''q'')\<rparr> [''audit.py'', ''q.txt'']) = 0 \<and>
   map fst (written (main \<lparr>file_at = (\<lambda>p. if p = ''q.txt'' then Some [''rex '' @ [DQ] @ ''a'' @ [DQ, NL]] else None),
                    expanduser = (\<lambda>p. p), stem = (\<lambda>p. ''q'')\<rparr> [''audit.py'', ''q.txt''])) =
     [''q.portability_audit.csv'', ''q.portability_audit.json'']"
proof -
  let ?w = "\<lparr>file_at = (\<lambda>p. if p = ''q.txt'' then Some [''rex '' @ [DQ] @ ''a'' @ [DQ, NL]] else None),
                    expanduser = (\<lambda>p. p), stem = (\<lambda>p. ''q'')\<rparr>"
  from main_exit_codes [of "[''audit.py'']" ?w]
  have "exit_code (main ?w [''audit.py'']) = 2" by simp
  moreover from main_exit_codes [of "[''audit.py'', ''none.txt'']" ?w]
  have "exit_code (main ?w [''audit.py'', ''none.txt'']) = 1" by simp
  moreover from main_exit_codes [of "[''audit.py'', ''q.txt'']" ?w]
  have "exit_code (main ?w [''audit.py'', ''q.txt'']) = 0 \<and>
    map fst (written (main ?w [''audit.py'', ''q.txt''])) =
     [''q.portability_audit.csv'', ''q.portability_audit.json'']" by simp
  ultimately show ?thesis by blast
qed

end
